theory Spec2Isabelle
  imports Complex_Main "HOL-Library.Multiset"
begin

section \<open>Data model\<close>

text \<open>
  A scan result is a Python dict; the modelled code reads the keys \<open>url\<close>,
  \<open>status_code\<close>, \<open>content_length\<close> and \<open>content\<close> through \<open>result.get\<close>.
  Every producer in the repository sets all four, so the dict is a record.
  Python integers are unbounded: \<open>int\<close>.
\<close>

record result =
  url :: string
  status_code :: int
  content_length :: int
  content :: string

section \<open>IntelligentFilter.prioritize\_results\<close>

text \<open>
  The inner function \<open>sort_key\<close> of \<open>prioritize_results\<close>: the priority starts at 0
  and is increased by the status branch, then by the content-length branch
  (both are \<open>if/elif\<close> chains, so at most one arm of each fires).
\<close>

definition sort_key_result :: "result \<Rightarrow> int" where
  "sort_key_result r =
     (let status = status_code r;
          len = content_length r;
          priority = 0;
          priority = (if status = 200 then priority + 0
                      else if status \<in> set [301, 302] then priority + 1
                      else if status = 403 then priority + 2
                      else if status = 401 then priority + 3
                      else priority + 10);
          priority = (if len = 0 then priority + 5
                      else if len < 100 then priority + 2
                      else if len > 1000000 then priority + 1
                      else priority)
      in priority)"

text \<open>
  \<open>sorted(results, key=sort_key)\<close>: Python's \<open>sorted\<close> is a stable sort by key;
  \<open>List.sort_key\<close> is the stable sort of HOL (insertion sort).
\<close>

definition prioritize_results :: "result list \<Rightarrow> result list" where
  "prioritize_results results = sort_key sort_key_result results"

section \<open>Strings\<close>

text \<open>
  Python strings are sequences of code points; a \<open>string\<close> here is a list of
  \<open>char\<close>, that is of code points below 256.  \<open>str(n)\<close> and the \<open>{n}\<close> of an
  f-string render an integer in decimal, with a leading minus sign when negative.
\<close>

definition digit_char :: "nat \<Rightarrow> char" where
  "digit_char d = ''0123456789'' ! (d mod 10)"

fun str_nat :: "nat \<Rightarrow> string" where
  "str_nat n = (if n < 10 then [digit_char n] else str_nat (n div 10) @ [digit_char (n mod 10)])"

declare str_nat.simps [simp del]

definition str_int :: "int \<Rightarrow> string" where
  "str_int i = (if i < 0 then CHR ''-'' # str_nat (nat (- i)) else str_nat (nat i))"

text \<open>\<open>s.startswith(p)\<close> and \<open>sub in s\<close>.\<close>

fun startswith :: "string \<Rightarrow> string \<Rightarrow> bool" where
  "startswith s [] = True"
| "startswith [] (p # ps) = False"
| "startswith (c # s) (p # ps) = (c = p \<and> startswith s ps)"

fun str_contains :: "string \<Rightarrow> string \<Rightarrow> bool" where
  "str_contains [] sub = (sub = [])"
| "str_contains (c # s) sub = (startswith (c # s) sub \<or> str_contains s sub)"

text \<open>
  \<open>str.lower\<close> on code points below 256: the ASCII capitals and the Latin-1
  capitals (\<open>0xC0\<close> to \<open>0xDE\<close>, the multiplication sign \<open>0xD7\<close> apart) move up by 32.
\<close>

definition lower_char :: "char \<Rightarrow> char" where
  "lower_char c =
     (let n = (of_char c :: nat)
      in if (65 \<le> n \<and> n \<le> 90) \<or> (192 \<le> n \<and> n \<le> 222 \<and> n \<noteq> 215)
         then char_of (n + 32) else c)"

definition lower :: "string \<Rightarrow> string" where
  "lower s = map lower_char s"

text \<open>
  The class \<open>\s\<close> of a Unicode pattern on code points below 256: tab to carriage
  return, the four separators \<open>0x1C\<close> to \<open>0x1F\<close>, space, \<open>0x85\<close> and \<open>0xA0\<close>.
\<close>

definition is_space :: "char \<Rightarrow> bool" where
  "is_space c =
     (let n = (of_char c :: nat)
      in (9 \<le> n \<and> n \<le> 13) \<or> (28 \<le> n \<and> n \<le> 32) \<or> n = 133 \<or> n = 160)"

section \<open>Configuration\<close>

text \<open>
  The dataclass \<open>ScanConfig\<close>, with the fields the scan path reads and the field
  \<open>max_rate\<close>.  The delays and the timeout are Python floats; a (finite) float is a
  real number, so the fields are reals, and where the code computes with them the float
  operation is a parameter of the model.  \<open>headers\<close> and \<open>cookies\<close> are dicts: the
  lists of their items, in order.
\<close>

record scan_config =
  urls :: "string list"
  url_file :: "string option"
  wordlists :: "string list"
  extensions :: "string list"
  force_extensions :: bool
  brute_force :: bool
  crawling :: bool
  recursive :: bool
  max_depth :: int
  recursion_status_codes :: "int list"
  fuzz_patterns :: bool
  anti_waf :: bool
  threads :: int
  delay :: real
  random_delay_min :: real
  random_delay_max :: real
  timeout :: real
  max_rate :: int
  include_status_codes :: "int list"
  exclude_status_codes :: "int list"
  min_response_size :: int
  max_response_size :: int
  exclude_sizes :: "string list"
  exclude_text :: "string list"
  exclude_regex :: "string list"
  user_agent :: string
  headers :: "(string \<times> string) list"
  cookies :: "(string \<times> string) list"
  http_method :: string
  follow_redirects :: bool
  proxy :: "string option"

text \<open>The defaults of the dataclass, after \<open>__post_init__\<close>.\<close>

definition default_config :: scan_config where
  "default_config =
     \<lparr>urls = [], url_file = None, wordlists = [],
      extensions = [''php'', ''html'', ''js'', ''txt''], force_extensions = False,
      brute_force = True, crawling = True,
      recursive = False, max_depth = 2, recursion_status_codes = [200, 301, 302, 403],
      fuzz_patterns = False, anti_waf = False,
      threads = 10, delay = 0, random_delay_min = 0, random_delay_max = 0, timeout = 10,
      max_rate = 0,
      include_status_codes = [200, 301, 302, 403], exclude_status_codes = [404, 429],
      min_response_size = 0, max_response_size = 0,
      exclude_sizes = [], exclude_text = [], exclude_regex = [],
      user_agent = ''DeepDir/5.0'', headers = [], cookies = [],
      http_method = ''GET'', follow_redirects = False, proxy = None\<rparr>"

section \<open>IntelligentFilter\<close>

subsection \<open>Acceptance filter\<close>

text \<open>
  \<open>re.search(pattern, text, re.IGNORECASE)\<close> belongs to the standard library: the
  functions below take it as the parameter \<open>re_search pattern text\<close>, so every
  theorem holds for whatever the regular-expression engine answers.
\<close>

type_synonym regex_search = "string \<Rightarrow> string \<Rightarrow> bool"

definition false_positive_patterns :: "string list" where
  "false_positive_patterns =
     [''404.*not.*found'', ''page.*not.*found'', ''file.*not.*found'',
      ''directory.*not.*found'', ''403.*forbidden'', ''access.*denied'',
      ''unauthorized'', ''permission.*denied'', ''server.*error'',
      ''internal.*server.*error'', ''bad.*request'', ''method.*not.*allowed'',
      ''service.*unavailable'', ''gateway.*timeout'', ''bad.*gateway'']"

definition is_false_positive :: "regex_search \<Rightarrow> string \<Rightarrow> bool" where
  "is_false_positive re_search c =
     (let content_lower = lower c
      in list_ex (\<lambda>pattern. re_search pattern content_lower) false_positive_patterns)"

definition format_size :: "int \<Rightarrow> string" where
  "format_size sz =
     (if sz < 1024 then str_int sz @ ''B''
      else if sz < 1024 * 1024 then str_int (sz div 1024) @ ''KB''
      else str_int (sz div (1024 * 1024)) @ ''MB'')"

definition matches_size :: "string \<Rightarrow> string \<Rightarrow> bool" where
  "matches_size size_str pattern = (size_str = pattern)"

text \<open>
  \<open>_is_interesting\<close>: a chain of early returns, kept in the source's order.  An
  empty include list, and a bound of 0, are falsy in Python and switch their test off.
\<close>

definition is_interesting :: "regex_search \<Rightarrow> scan_config \<Rightarrow> result \<Rightarrow> bool" where
  "is_interesting re_search cfg r =
     (let status = status_code r; len = content_length r; c = content r
      in if include_status_codes cfg \<noteq> [] \<and> status \<notin> set (include_status_codes cfg) then False
         else if status \<in> set (exclude_status_codes cfg) then False
         else if min_response_size cfg \<noteq> 0 \<and> len < min_response_size cfg then False
         else if max_response_size cfg \<noteq> 0 \<and> len > max_response_size cfg then False
         else if list_ex (\<lambda>excl. matches_size (format_size len) excl) (exclude_sizes cfg)
           then False
         else if is_false_positive re_search c then False
         else if list_ex (\<lambda>excl_text. str_contains c excl_text) (exclude_text cfg) then False
         else if list_ex (\<lambda>pattern. re_search pattern c) (exclude_regex cfg) then False
         else True)"

subsection \<open>Exact deduplication\<close>

text \<open>The key \<open>f"{url}:{status_code}"\<close> of \<open>_remove_duplicates\<close>.\<close>

definition dedup_key :: "result \<Rightarrow> string" where
  "dedup_key r = url r @ '':'' @ str_int (status_code r)"

text \<open>
  The loop of \<open>_remove_duplicates\<close>, with its two local variables \<open>seen\<close> and
  \<open>unique_results\<close> as accumulators.
\<close>

fun remove_duplicates_loop :: "string set \<Rightarrow> result list \<Rightarrow> result list \<Rightarrow> result list" where
  "remove_duplicates_loop seen unique_results [] = unique_results"
| "remove_duplicates_loop seen unique_results (r # rs) =
     (let key = dedup_key r
      in if key \<notin> seen
         then remove_duplicates_loop (insert key seen) (unique_results @ [r]) rs
         else remove_duplicates_loop seen unique_results rs)"

definition remove_duplicates :: "result list \<Rightarrow> result list" where
  "remove_duplicates results = remove_duplicates_loop {} [] results"

subsection \<open>Content-equivalence collapsing\<close>

text \<open>
  \<open>_calculate_content_hash\<close>: the body is lower-cased, every run of whitespace is
  deleted, and the outcome is digested.  The digest (\<open>hashlib.md5\<close> of the UTF-8
  encoding, in hexadecimal) is the parameter \<open>md5\<close>.
\<close>

definition calculate_content_hash :: "(string \<Rightarrow> string) \<Rightarrow> string \<Rightarrow> string" where
  "calculate_content_hash md5 c = md5 (filter (\<lambda>ch. \<not> is_space ch) (lower c))"

definition is_better_result :: "result \<Rightarrow> result \<Rightarrow> bool" where
  "is_better_result new_result existing_result =
     (let new_status = status_code new_result;
          existing_status = status_code existing_result
      in if new_status = 200 \<and> existing_status \<noteq> 200 then True
         else if existing_status = 200 \<and> new_status \<noteq> 200 then False
         else new_status < existing_status)"

text \<open>
  The inner loop of \<open>_remove_similar_responses\<close>: the first entry of
  \<open>unique_results\<close> whose url equals the url of the cached result is overwritten,
  and the loop breaks.
\<close>

fun replace_first_url :: "string \<Rightarrow> result \<Rightarrow> result list \<Rightarrow> result list" where
  "replace_first_url u new [] = []"
| "replace_first_url u new (r # rs) =
     (if url r = u then new # rs else r # replace_first_url u new rs)"

text \<open>
  \<open>response_cache\<close> is an attribute of the filter object: it outlives the call, so
  the model takes it and returns it.
\<close>

type_synonym response_cache = "string \<rightharpoonup> result"

fun remove_similar_loop ::
  "(string \<Rightarrow> string) \<Rightarrow> response_cache \<Rightarrow> result list \<Rightarrow> result list
     \<Rightarrow> result list \<times> response_cache" where
  "remove_similar_loop md5 cache unique_results [] = (unique_results, cache)"
| "remove_similar_loop md5 cache unique_results (r # rs) =
     (let content_hash = calculate_content_hash md5 (content r)
      in case cache content_hash of
           None \<Rightarrow> remove_similar_loop md5 (cache(content_hash \<mapsto> r)) (unique_results @ [r]) rs
         | Some existing \<Rightarrow>
             if is_better_result r existing
             then remove_similar_loop md5 (cache(content_hash \<mapsto> r))
                    (replace_first_url (url existing) r unique_results) rs
             else remove_similar_loop md5 cache unique_results rs)"

definition remove_similar_responses ::
  "(string \<Rightarrow> string) \<Rightarrow> response_cache \<Rightarrow> result list \<Rightarrow> result list \<times> response_cache" where
  "remove_similar_responses md5 cache results = remove_similar_loop md5 cache [] results"

subsection \<open>The pipeline\<close>

definition filter_results ::
  "regex_search \<Rightarrow> (string \<Rightarrow> string) \<Rightarrow> scan_config \<Rightarrow> response_cache \<Rightarrow> result list
     \<Rightarrow> result list \<times> response_cache" where
  "filter_results re_search md5 cfg cache results =
     (let filtered = filter (is_interesting re_search cfg) results;
          filtered = remove_duplicates filtered
      in remove_similar_responses md5 cache filtered)"

subsection \<open>The representative of a content-equivalence class\<close>

text \<open>The content hash of a result, as \<open>_remove_similar_responses\<close> computes it.\<close>

definition result_hash :: "(string \<Rightarrow> string) \<Rightarrow> result \<Rightarrow> string" where
  "result_hash md5 r = calculate_content_hash md5 (content r)"

text \<open>
  The specification's rule, in its own words, for comparison with the code: a status-200
  result beats any non-200 result; among non-200 results the numerically lower status
  code wins.
\<close>

definition spec_beats :: "result \<Rightarrow> result \<Rightarrow> bool" where
  "spec_beats a b =
     ((status_code a = 200 \<and> status_code b \<noteq> 200)
      \<or> (status_code a \<noteq> 200 \<and> status_code b \<noteq> 200 \<and> status_code a < status_code b))"

text \<open>
  The representative the specification gives a class: among the results of the class, the
  earliest one that no result of the class beats (so that a tie keeps the earlier-seen
  result).
\<close>

definition class_representative ::
  "(string \<Rightarrow> string) \<Rightarrow> result list \<Rightarrow> string \<Rightarrow> result option" where
  "class_representative md5 rs k =
     find (\<lambda>x. result_hash md5 x = k
              \<and> list_all (\<lambda>y. result_hash md5 y = k \<longrightarrow> \<not> spec_beats y x) rs) rs"

text \<open>
  What the cache holds for one class after a run of the loop: each result of the class
  challenges the current holder and replaces it when it is better.
\<close>

fun champion :: "(result \<Rightarrow> bool) \<Rightarrow> result option \<Rightarrow> result list \<Rightarrow> result option" where
  "champion P cur [] = cur"
| "champion P cur (x # xs) =
     champion P (if P x
                 then (case cur of None \<Rightarrow> Some x
                       | Some e \<Rightarrow> if is_better_result x e then Some x else Some e)
                 else cur) xs"

text \<open>A result of the class \<open>P\<close> that no result of the class in \<open>rs\<close> beats.\<close>

definition unbeaten :: "(result \<Rightarrow> bool) \<Rightarrow> result list \<Rightarrow> result \<Rightarrow> bool" where
  "unbeaten P rs x = (P x \<and> (\<forall>y \<in> set rs. P y \<longrightarrow> \<not> is_better_result y x))"

section \<open>DeepScanner\<close>

subsection \<open>Link extraction\<close>

text \<open>
  \<open>re.findall(r'href=["\']([^"\']+)["\']', content, re.IGNORECASE)\<close>.  At a position
  the pattern matches when the next five characters are \<open>href=\<close> in any case, a quote
  follows, then a non-empty maximal run of non-quote characters, then a quote; the run
  is the captured group.  \<open>match_href\<close> returns the group and the length of the match.
\<close>

definition is_quote :: "char \<Rightarrow> bool" where
  "is_quote c = (c = CHR 0x22 \<or> c = CHR 0x27)"

definition match_href :: "string \<Rightarrow> (string \<times> nat) option" where
  "match_href s =
     (if lower (take 5 s) = ''href='' then
        (case drop 5 s of
           [] \<Rightarrow> None
         | q # rest \<Rightarrow>
             if is_quote q then
               (let cap = takeWhile (\<lambda>c. \<not> is_quote c) rest
                in if cap \<noteq> [] \<and> length cap < length rest
                   then Some (cap, 5 + 1 + length cap + 1) else None)
             else None)
      else None)"

text \<open>
  The scan of \<open>findall\<close>: matches are tried from left to right and do not overlap; the
  first argument counts the characters of the last match that are still to be skipped.
\<close>

fun findall_href_from :: "nat \<Rightarrow> string \<Rightarrow> string list" where
  "findall_href_from skip [] = []"
| "findall_href_from (Suc k) (c # s) = findall_href_from k s"
| "findall_href_from 0 (c # s) =
     (case match_href (c # s) of
        Some (cap, n) \<Rightarrow> cap # findall_href_from (n - 1) s
      | None \<Rightarrow> findall_href_from 0 s)"

definition findall_href :: "string \<Rightarrow> string list" where
  "findall_href c = findall_href_from 0 c"

text \<open>
  \<open>urllib.parse.urlparse\<close> and \<open>urljoin\<close> belong to the standard library and are
  parameters: \<open>urlparse u\<close> gives the scheme and the network location of \<open>u\<close>, and both
  functions give \<open>None\<close> where the library raises \<open>ValueError\<close>.
\<close>

record urllib =
  urlparse :: "string \<Rightarrow> (string \<times> string) option"
  urljoin :: "string \<Rightarrow> string \<Rightarrow> string option"

text \<open>
  The loop of \<open>_extract_new_urls\<close> over the matches; \<open>None\<close> when a library call raises
  (the exception leaves the function).
\<close>

fun extract_loop ::
  "urllib \<Rightarrow> string \<Rightarrow> string \<Rightarrow> string \<Rightarrow> string list \<Rightarrow> string list \<Rightarrow> string list option" where
  "extract_loop lib scheme netloc base_url [] found = Some found"
| "extract_loop lib scheme netloc base_url (m # ms) found =
     (case (if startswith m ''/'' then Some (scheme @ ''://'' @ netloc @ m)
            else if startswith m ''http://'' \<or> startswith m ''https://'' then Some m
            else urljoin lib base_url m) of
        None \<Rightarrow> None
      | Some new_url \<Rightarrow>
          (case urlparse lib new_url of
             None \<Rightarrow> None
           | Some (scheme_new, netloc_new) \<Rightarrow>
               extract_loop lib scheme netloc base_url ms
                 (if netloc_new = netloc then found @ [new_url] else found)))"

definition extract_new_urls :: "urllib \<Rightarrow> result \<Rightarrow> string list option" where
  "extract_new_urls lib r =
     (let matches = findall_href (content r); base_url = url r
      in case urlparse lib base_url of
           None \<Rightarrow> None
         | Some (scheme, netloc) \<Rightarrow> extract_loop lib scheme netloc base_url matches [])"

definition should_recurse :: "scan_config \<Rightarrow> result \<Rightarrow> bool" where
  "should_recurse cfg r = (status_code r \<in> set (recursion_status_codes cfg))"

subsection \<open>The scheduling loop of scan\_target\<close>

text \<open>
  The state of the loop: the work queue of (url, depth) pairs, the submitted and not yet
  collected futures with their url and depth, the local list \<open>results\<close>, and
  \<open>self.visited_urls\<close>, which belongs to the scanner object and outlives the call.
  Two fields record what the loop does to the outside: \<open>submitted\<close> lists the calls
  \<open>executor.submit(self._scan_url, url, depth)\<close> in order, and \<open>error_log\<close> the urls
  of the \<open>logger.error\<close> calls of the exception handler.
\<close>

record scanner_state =
  scan_queue :: "(string \<times> int) list"
  futures :: "(string \<times> int) list"
  results_acc :: "result list"
  visited_urls :: "string set"
  submitted :: "(string \<times> int) list"
  error_log :: "string list"

text \<open>The normalisation at the head of \<open>scan_target\<close>.\<close>

definition normalize_target :: "string \<Rightarrow> string" where
  "normalize_target target =
     (if \<not> (startswith target ''http://'' \<or> startswith target ''https://'')
      then ''https://'' @ target else target)"

definition init_state :: "string set \<Rightarrow> string \<Rightarrow> scanner_state" where
  "init_state visited target =
     \<lparr>scan_queue = [(normalize_target target, 0)], futures = [], results_acc = [],
      visited_urls = visited, submitted = [], error_log = []\<rparr>"

text \<open>The innermost loop: every url not yet visited is queued one level down and marked.\<close>

fun enqueue_new :: "int \<Rightarrow> string list \<Rightarrow> scanner_state \<Rightarrow> scanner_state" where
  "enqueue_new depth [] s = s"
| "enqueue_new depth (new_url # us) s =
     enqueue_new depth us
       (if new_url \<notin> visited_urls s
        then s\<lparr>scan_queue := scan_queue s @ [(new_url, depth + 1)],
               visited_urls := insert new_url (visited_urls s)\<rparr>
        else s)"

text \<open>
  The loop over the results of one finished scan.  An exception of
  \<open>_extract_new_urls\<close> is caught by the handler around the whole block: the error is
  logged, what was queued so far stays queued, and the remaining results are skipped.
\<close>

fun recurse_results ::
  "scan_config \<Rightarrow> urllib \<Rightarrow> string \<Rightarrow> int \<Rightarrow> result list \<Rightarrow> scanner_state \<Rightarrow> scanner_state" where
  "recurse_results cfg lib u depth [] s = s"
| "recurse_results cfg lib u depth (r # rs) s =
     (if should_recurse cfg r
      then (case extract_new_urls lib r of
              None \<Rightarrow> s\<lparr>error_log := error_log s @ [u]\<rparr>
            | Some new_urls \<Rightarrow> recurse_results cfg lib u depth rs (enqueue_new depth new_urls s))
      else recurse_results cfg lib u depth rs s)"

text \<open>What a future holds when it is done: the list \<open>_scan_url\<close> returned, or an exception.\<close>

datatype scan_outcome = Returned "result list" | Raised

text \<open>
  The body of \<open>if future.done()\<close> for the future at index \<open>i\<close>: it is removed, and its
  outcome is processed.
\<close>

definition process_done ::
  "scan_config \<Rightarrow> urllib \<Rightarrow> nat \<Rightarrow> scan_outcome \<Rightarrow> scanner_state \<Rightarrow> scanner_state" where
  "process_done cfg lib i outcome s =
     (let (u, depth) = futures s ! i;
          s1 = s\<lparr>futures := take i (futures s) @ drop (Suc i) (futures s)\<rparr>
      in case outcome of
           Raised \<Rightarrow> s1\<lparr>error_log := error_log s1 @ [u]\<rparr>
         | Returned scan_results \<Rightarrow>
             (let s2 = s1\<lparr>results_acc := results_acc s1 @ scan_results\<rparr>
              in if recursive cfg \<and> depth < max_depth cfg
                 then recurse_results cfg lib u depth scan_results s2
                 else s2))"

text \<open>
  One step of the loop.  The worker threads finish in any order and with any outcome, so
  a step either submits the head of the queue, when fewer than \<open>threads\<close> futures are
  pending, or collects any one pending future with any outcome.
\<close>

inductive scan_step :: "scan_config \<Rightarrow> urllib \<Rightarrow> scanner_state \<Rightarrow> scanner_state \<Rightarrow> bool"
  for cfg :: scan_config and lib :: urllib where
  submit:
    "scan_queue s = (u, depth) # q \<Longrightarrow> int (length (futures s)) < threads cfg \<Longrightarrow>
     scan_step cfg lib s
       (s\<lparr>scan_queue := q, futures := futures s @ [(u, depth)],
          submitted := submitted s @ [(u, depth)]\<rparr>)"
| collect:
    "i < length (futures s) \<Longrightarrow> scan_step cfg lib s (process_done cfg lib i outcome s)"

text \<open>The states a scan of \<open>target\<close> passes through.\<close>

definition reachable :: "scan_config \<Rightarrow> urllib \<Rightarrow> string set \<Rightarrow> string \<Rightarrow> scanner_state \<Rightarrow> bool" where
  "reachable cfg lib visited target s = (scan_step cfg lib)\<^sup>*\<^sup>* (init_state visited target) s"

text \<open>
  \<open>scan_target\<close> returns when the queue is empty and no future is pending; creating the
  pool raises \<open>ValueError\<close> when \<open>threads\<close> is not positive.  The outcome comes with the
  list of submitted scans and with the visited set left behind.
\<close>

type_synonym scan_result = "(string + result list) \<times> (string \<times> int) list \<times> string set"

inductive scan_target :: "scan_config \<Rightarrow> urllib \<Rightarrow> string set \<Rightarrow> string \<Rightarrow> scan_result \<Rightarrow> bool"
  for cfg :: scan_config and lib :: urllib where
  pool_error:
    "threads cfg \<le> 0 \<Longrightarrow> scan_target cfg lib visited target (Inl ''ValueError'', [], visited)"
| finished:
    "0 < threads cfg \<Longrightarrow> reachable cfg lib visited target s \<Longrightarrow>
     scan_queue s = [] \<Longrightarrow> futures s = [] \<Longrightarrow>
     scan_target cfg lib visited target (Inr (results_acc s), submitted s, visited_urls s)"

text \<open>\<open>scan_targets\<close>: the targets one after the other; an exception ends the loop.\<close>

inductive scan_targets ::
  "scan_config \<Rightarrow> urllib \<Rightarrow> string set \<Rightarrow> string list \<Rightarrow> scan_result \<Rightarrow> bool"
  for cfg :: scan_config and lib :: urllib where
  no_target:
    "scan_targets cfg lib visited [] (Inr [], [], visited)"
| target_raises:
    "scan_target cfg lib visited t (Inl e, tr, visited') \<Longrightarrow>
     scan_targets cfg lib visited (t # ts) (Inl e, tr, visited')"
| target_returns:
    "scan_target cfg lib visited t (Inr rs, tr, visited') \<Longrightarrow>
     scan_targets cfg lib visited' ts (out, tr', visited'') \<Longrightarrow>
     scan_targets cfg lib visited (t # ts)
       (case out of Inl e \<Rightarrow> Inl e | Inr rss \<Rightarrow> Inr (rs @ rss), tr @ tr', visited'')"

subsection \<open>Config.validate\<close>

text \<open>
  \<open>validate\<close> returns a truth value and raises nothing; it fills in the default
  wordlists, here the parameter \<open>defaults\<close> (they are read from the file system).
\<close>

definition validate :: "string list \<Rightarrow> scan_config \<Rightarrow> bool \<times> scan_config" where
  "validate defaults cfg =
     (if urls cfg = [] \<and> (url_file cfg = None \<or> url_file cfg = Some [])
      then (False, cfg)
      else (True, if wordlists cfg = [] then cfg\<lparr>wordlists := defaults\<rparr> else cfg))"

subsection \<open>Invariants of the scheduling loop\<close>

text \<open>
  What holds of every (url, depth) pair the loop handles: the depth is not negative,
  only the normalised target has depth 0, and a positive depth is at most \<open>max_depth\<close>.
\<close>

definition entry_ok :: "scan_config \<Rightarrow> string \<Rightarrow> string \<times> int \<Rightarrow> bool" where
  "entry_ok cfg target e =
     (0 \<le> snd e \<and> (snd e = 0 \<longrightarrow> fst e = normalize_target target)
      \<and> (snd e = 0 \<or> snd e \<le> max_depth cfg))"

definition state_ok :: "scan_config \<Rightarrow> string \<Rightarrow> scanner_state \<Rightarrow> bool" where
  "state_ok cfg target s =
     ((\<forall>e \<in> set (scan_queue s) \<union> set (futures s) \<union> set (submitted s). entry_ok cfg target e)
      \<and> set (futures s) \<subseteq> set (submitted s)
      \<and> (if submitted s = [] then scan_queue s = [(normalize_target target, 0)]
          else hd (submitted s) = (normalize_target target, 0)))"

section \<open>The session and the network\<close>

text \<open>
  A \<open>requests.Session\<close> as the code configures it: the assignments made to
  \<open>session.headers\<close>, to \<open>session.cookies\<close> and to \<open>session.proxies\<close>, in order
  (the library merges them into its own defaults), and whether the retry adapter of
  \<open>_create_session\<close> is mounted.
\<close>

record http_session =
  sess_headers :: "(string \<times> string) list"
  sess_cookies :: "(string \<times> string) list"
  sess_proxies :: "(string \<times> string) list"
  sess_retry :: bool

text \<open>
  What a request gives back: a response, of which the code reads the status, the length
  of the raw content and the decoded text, or a
  \<open>requests.exceptions.RequestException\<close> (time-out, refused connection) with its
  message.  The network is the parameter \<open>http session method url timeout
  allow_redirects\<close>: it is given everything the code passes to the library.
\<close>

record response =
  resp_status :: int
  resp_length :: int
  resp_text :: string

datatype http_reply = Response response | RequestException string

type_synonym http_client = "http_session \<Rightarrow> string \<Rightarrow> string \<Rightarrow> real \<Rightarrow> bool \<Rightarrow> http_reply"

text \<open>A request as the network sees it.\<close>

record http_request =
  req_session :: http_session
  req_method :: string
  req_url :: string
  req_timeout :: real
  req_redirects :: bool

text \<open>
  Assignment to a key of a Python dict: an existing key keeps its place and takes the
  new value, a new key goes to the end.  \<open>dict_update\<close> is the dict display
  \<open>{**d, **items}\<close>.
\<close>

fun dict_set :: "string \<Rightarrow> string \<Rightarrow> (string \<times> string) list \<Rightarrow> (string \<times> string) list" where
  "dict_set k v [] = [(k, v)]"
| "dict_set k v ((k', v') # d) = (if k' = k then (k', v) # d else (k', v') # dict_set k v d)"

definition dict_update ::
  "(string \<times> string) list \<Rightarrow> (string \<times> string) list \<Rightarrow> (string \<times> string) list" where
  "dict_update d items = foldl (\<lambda>d kv. dict_set (fst kv) (snd kv) d) d items"

text \<open>
  \<open>DeepScanner._create_session\<close>: the user agent and the configured headers, the
  configured cookies, the retry adapter, and the proxy when one is configured (\<open>None\<close>
  and the empty string are falsy).
\<close>

definition create_session :: "scan_config \<Rightarrow> http_session" where
  "create_session cfg =
     \<lparr>sess_headers = dict_update [(''User-Agent'', user_agent cfg)] (headers cfg),
      sess_cookies = cookies cfg,
      sess_proxies = (case proxy cfg of
                        None \<Rightarrow> []
                      | Some p \<Rightarrow> if p = [] then [] else [(''http'', p), (''https'', p)]),
      sess_retry = True\<rparr>"

text \<open>A log record: the level and the message.\<close>

type_synonym log_record = "string \<times> string"

text \<open>
  What a scan does to the outside, in order: the requests made, the records logged and
  the times slept.
\<close>

record probe_trace =
  requests :: "http_request list"
  logged :: "log_record list"
  sleeps :: "real list"

definition empty_trace :: probe_trace where
  "empty_trace = \<lparr>requests = [], logged = [], sleeps = []\<rparr>"

definition trace_append :: "probe_trace \<Rightarrow> probe_trace \<Rightarrow> probe_trace" where
  "trace_append a b =
     \<lparr>requests = requests a @ requests b, logged = logged a @ logged b,
      sleeps = sleeps a @ sleeps b\<rparr>"

section \<open>AntiWAF.apply\_techniques\<close>

text \<open>
  The random draws of one call: whether \<open>random.random() < 0.3\<close>, \<open>< 0.2\<close> and
  \<open>< 0.1\<close> came out true, and what \<open>random.choice\<close> picked from the user agents and
  from the \<open>Accept\<close> values.  (The fourth draw guards a \<open>pass\<close>.)
\<close>

record waf_draws =
  rotate_user_agent :: bool
  chosen_user_agent :: string
  rotate_accept :: bool
  chosen_accept :: string
  add_extra_headers :: bool

definition set_header :: "string \<Rightarrow> string \<Rightarrow> http_session \<Rightarrow> http_session" where
  "set_header k v sess = sess\<lparr>sess_headers := sess_headers sess @ [(k, v)]\<rparr>"

definition apply_techniques :: "waf_draws \<Rightarrow> http_session \<Rightarrow> http_session" where
  "apply_techniques draws sess =
     (let sess = (if rotate_user_agent draws
                  then set_header ''User-Agent'' (chosen_user_agent draws) sess else sess);
          sess = (if rotate_accept draws
                  then set_header ''Accept'' (chosen_accept draws) sess else sess);
          sess = (if add_extra_headers draws
                  then set_header ''Upgrade-Insecure-Requests'' ''1'' (set_header ''DNT'' ''1'' sess)
                  else sess)
      in sess)"

section \<open>BruteForcer\<close>

subsection \<open>The wordlist\<close>

text \<open>
  Reading a wordlist file: its lines, \<open>FileNotFoundError\<close>, or another exception with
  its message.  The file system is the parameter \<open>read_lines\<close>.
\<close>

datatype file_read = Lines "string list" | FileNotFoundError | OtherError string

text \<open>\<open>str.strip()\<close>: the whitespace at both ends is removed.\<close>

definition strip :: "string \<Rightarrow> string" where
  "strip s = rev (dropWhile is_space (rev (dropWhile is_space s)))"

text \<open>\<open>word.replace('%EXT%', ext)\<close>: every occurrence, from the left.\<close>

fun replace_ext :: "string \<Rightarrow> string \<Rightarrow> string" where
  "replace_ext ext [] = []"
| "replace_ext ext (c # cs) =
     (if startswith (c # cs) ''%EXT%'' then ext @ replace_ext ext (drop 4 cs)
      else c # replace_ext ext cs)"

text \<open>
  The first loop of \<open>_load_wordlist\<close>: the stripped non-empty lines of every file that
  can be read, and a log record for every file that cannot.
\<close>

fun read_wordlists ::
  "(string \<Rightarrow> file_read) \<Rightarrow> string list \<Rightarrow> string list \<Rightarrow> log_record list
     \<Rightarrow> string list \<times> log_record list" where
  "read_wordlists read_lines [] words logs = (words, logs)"
| "read_wordlists read_lines (wordlist_path # paths) words logs =
     (case read_lines wordlist_path of
        Lines ls \<Rightarrow>
          read_wordlists read_lines paths
            (words @ filter (\<lambda>w. w \<noteq> []) (map strip ls)) logs
      | FileNotFoundError \<Rightarrow>
          read_wordlists read_lines paths words
            (logs @ [(''WARNING'', ''Wordlist not found: '' @ wordlist_path)])
      | OtherError e \<Rightarrow>
          read_wordlists read_lines paths words
            (logs @ [(''ERROR'', ''Error loading wordlist '' @ wordlist_path @ '': '' @ e)]))"

text \<open>The words a word gives when extensions are configured.\<close>

definition extend_word :: "scan_config \<Rightarrow> string \<Rightarrow> string list" where
  "extend_word cfg word =
     word # concat (map (\<lambda>ext. if force_extensions cfg then [word @ ''.'' @ ext, word @ ''/'']
                              else if str_contains word ''%EXT%'' then [replace_ext ext word]
                              else [word @ ''.'' @ ext])
                      (extensions cfg))"

text \<open>
  \<open>_load_wordlist\<close>.  \<open>list(set(words))\<close> removes the duplicates and leaves the order
  to the hash table: it is the parameter \<open>set_order\<close>.
\<close>

definition load_wordlist ::
  "(string \<Rightarrow> file_read) \<Rightarrow> (string list \<Rightarrow> string list) \<Rightarrow> scan_config
     \<Rightarrow> string list \<times> log_record list" where
  "load_wordlist read_lines set_order cfg =
     (let (words, logs) = read_wordlists read_lines (wordlists cfg) [] [];
          words = set_order words;
          words = (if extensions cfg \<noteq> [] then concat (map (extend_word cfg) words) else words)
      in (words, logs))"

subsection \<open>Requests\<close>

text \<open>
  \<open>_make_request\<close>: the result dict of a response (the text cut to 1000 characters), or
  \<open>None\<close> when the request raised; with the request made and the records logged.
\<close>

definition brute_request :: "scan_config \<Rightarrow> http_session \<Rightarrow> string \<Rightarrow> http_request" where
  "brute_request cfg sess u =
     \<lparr>req_session = sess, req_method = http_method cfg, req_url = u,
      req_timeout = timeout cfg, req_redirects = follow_redirects cfg\<rparr>"

definition make_request ::
  "http_client \<Rightarrow> scan_config \<Rightarrow> http_session \<Rightarrow> string \<Rightarrow> result option \<times> log_record list" where
  "make_request http cfg sess u =
     (case http sess (http_method cfg) u (timeout cfg) (follow_redirects cfg) of
        Response resp \<Rightarrow>
          (Some \<lparr>url = u, status_code = resp_status resp, content_length = resp_length resp,
                 content = (if length (resp_text resp) > 1000 then take 1000 (resp_text resp)
                            else resp_text resp)\<rparr>,
           if resp_status resp \<notin> set [404, 429]
           then [(''DEBUG'', ''Found: '' @ str_int (resp_status resp) @ '' - '' @ u)] else [])
      | RequestException e \<Rightarrow>
          (None, [(''DEBUG'', ''Request failed for '' @ u @ '': '' @ e)]))"

text \<open>
  \<open>_apply_delay\<close>: the time slept, if any.  \<open>rnd\<close> is what \<open>random.uniform\<close> returns
  when it is called, and \<open>fadd\<close> is the addition of floats (which rounds).
\<close>

definition apply_delay :: "(real \<Rightarrow> real \<Rightarrow> real) \<Rightarrow> scan_config \<Rightarrow> real \<Rightarrow> real option" where
  "apply_delay fadd cfg rnd =
     (let d = delay cfg;
          d = (if random_delay_min cfg \<noteq> 0 \<and> random_delay_max cfg \<noteq> 0 then fadd d rnd else d)
      in if d > 0 then Some d else None)"

text \<open>
  The url probed for a word: the word is joined to the base url (without its leading
  slash), and a slash is appended unless the url ends with one or its last segment
  contains a dot.  \<open>None\<close> when \<open>urljoin\<close> raises.
\<close>

definition last_segment :: "string \<Rightarrow> string" where
  "last_segment u = rev (takeWhile (\<lambda>c. c \<noteq> CHR ''/'') (rev u))"

definition target_url :: "urllib \<Rightarrow> string \<Rightarrow> string \<Rightarrow> string option" where
  "target_url lib base_url word =
     (case (if startswith word ''/'' then urljoin lib base_url (drop 1 word)
            else urljoin lib base_url word) of
        None \<Rightarrow> None
      | Some t \<Rightarrow>
          Some (if \<not> (t \<noteq> [] \<and> last t = CHR ''/'') \<and> CHR ''.'' \<notin> set (last_segment t)
                then t @ ''/'' else t))"

text \<open>
  The loop of \<open>BruteForcer.scan\<close> over the wordlist.  \<open>uniform k lo hi\<close> is the random
  number drawn in the \<open>k\<close>-th iteration.  The outcome is \<open>None\<close> when an exception
  (of \<open>urljoin\<close>) leaves the loop.
\<close>

fun brute_loop ::
  "http_client \<Rightarrow> urllib \<Rightarrow> (nat \<Rightarrow> real \<Rightarrow> real \<Rightarrow> real) \<Rightarrow> (real \<Rightarrow> real \<Rightarrow> real)
     \<Rightarrow> scan_config \<Rightarrow> http_session \<Rightarrow> string \<Rightarrow> string list
     \<Rightarrow> nat \<Rightarrow> result list \<Rightarrow> probe_trace \<Rightarrow> result list option \<times> probe_trace" where
  "brute_loop http lib uniform fadd cfg sess base_url [] k results tr = (Some results, tr)"
| "brute_loop http lib uniform fadd cfg sess base_url (word # ws) k results tr =
     (case target_url lib base_url word of
        None \<Rightarrow> (None, tr)
      | Some t \<Rightarrow>
          (let (r, records) = make_request http cfg sess t;
               results' = (case r of None \<Rightarrow> results | Some x \<Rightarrow> results @ [x]);
               slept = apply_delay fadd cfg (uniform k (random_delay_min cfg) (random_delay_max cfg))
           in brute_loop http lib uniform fadd cfg sess base_url ws (Suc k) results'
                (tr\<lparr>requests := requests tr @ [brute_request cfg sess t],
                    logged := logged tr @ records,
                    sleeps := sleeps tr @ (case slept of None \<Rightarrow> [] | Some d \<Rightarrow> [d])\<rparr>)))"

definition brute_scan ::
  "http_client \<Rightarrow> urllib \<Rightarrow> (nat \<Rightarrow> real \<Rightarrow> real \<Rightarrow> real) \<Rightarrow> (real \<Rightarrow> real \<Rightarrow> real)
     \<Rightarrow> scan_config \<Rightarrow> http_session \<Rightarrow> string list \<Rightarrow> string
     \<Rightarrow> result list option \<times> probe_trace" where
  "brute_scan http lib uniform fadd cfg sess wordlist base_url =
     brute_loop http lib uniform fadd cfg sess base_url wordlist 0 []
       \<lparr>requests = [],
        logged = [(''INFO'', ''Starting brute force scan on '' @ base_url @ '' with ''
                     @ str_int (int (length wordlist)) @ '' words'')],
        sleeps = []\<rparr>"

section \<open>Crawler\<close>

text \<open>
  \<open>_crawl_url\<close>: a \<open>GET\<close> through the scanner's session, with the configured
  timeout and the library's default for redirects (followed).  The result keeps the
  whole text.
\<close>

definition crawl_request :: "scan_config \<Rightarrow> http_session \<Rightarrow> string \<Rightarrow> http_request" where
  "crawl_request cfg sess u =
     \<lparr>req_session = sess, req_method = ''GET'', req_url = u,
      req_timeout = timeout cfg, req_redirects = True\<rparr>"

definition crawl_url ::
  "http_client \<Rightarrow> scan_config \<Rightarrow> http_session \<Rightarrow> string \<Rightarrow> result option \<times> log_record list" where
  "crawl_url http cfg sess u =
     (case http sess ''GET'' u (timeout cfg) True of
        Response resp \<Rightarrow>
          (Some \<lparr>url = u, status_code = resp_status resp, content_length = resp_length resp,
                 content = resp_text resp\<rparr>, [])
      | RequestException e \<Rightarrow> (None, [(''DEBUG'', ''Crawl failed for '' @ u @ '': '' @ e)]))"

text \<open>
  \<open>_extract_urls\<close> parses the page inside a \<open>try\<close> block that logs any exception
  (\<open>html_error content base_url\<close> is the message of the exception of the parser or of
  \<open>urljoin\<close>, if one is raised), and then reads \<open>self.config.js\<close>.  \<open>ScanConfig\<close>
  declares no field \<open>js\<close>, and \<open>load_from_file\<close> and \<open>update_from_args\<close> set
  declared fields only: the read raises \<open>AttributeError\<close>, outside the \<open>try\<close> block.
  So \<open>_extract_urls\<close> never returns; the model gives what it logs before it raises.
\<close>

definition extract_urls_raises ::
  "(string \<Rightarrow> string \<Rightarrow> string option) \<Rightarrow> result \<Rightarrow> log_record list" where
  "extract_urls_raises html_error r =
     (case html_error (content r) (url r) of
        None \<Rightarrow> []
      | Some e \<Rightarrow> [(''DEBUG'', ''HTML parsing failed: '' @ e)])"

text \<open>
  \<open>Crawler.scan\<close>.  \<open>visited\<close> is an attribute of the crawler: it outlives the call, so
  the model takes it and returns it (a set, as the list of its elements).  The list
  \<open>to_visit\<close> starts as \<open>[base_url]\<close> and grows only after \<open>_extract_urls\<close> has
  returned, which it never does; so the loop body runs at most once: it is skipped when
  1000 urls have been visited, it ends the loop when \<open>base_url\<close> has been visited or
  its request fails, and it raises when the request is answered.  The outcome is
  \<open>None\<close> when the scan raises.
\<close>

definition crawler_scan ::
  "http_client \<Rightarrow> (string \<Rightarrow> string \<Rightarrow> string option) \<Rightarrow> scan_config \<Rightarrow> http_session
     \<Rightarrow> string list \<Rightarrow> string \<Rightarrow> result list option \<times> probe_trace \<times> string list" where
  "crawler_scan http html_error cfg sess visited base_url =
     (let tr = \<lparr>requests = [], logged = [(''INFO'', ''Starting crawl from '' @ base_url)],
                sleeps = []\<rparr>
      in if \<not> length visited < 1000 then (Some [], tr, visited)
         else if base_url \<in> set visited then (Some [], tr, visited)
         else (let visited = visited @ [base_url];
                   (r, records) = crawl_url http cfg sess base_url;
                   tr = tr\<lparr>requests := requests tr @ [crawl_request cfg sess base_url],
                           logged := logged tr @ records\<rparr>
               in case r of
                    None \<Rightarrow> (Some [], tr, visited)
                  | Some x \<Rightarrow>
                      (None, tr\<lparr>logged := logged tr @ extract_urls_raises html_error x\<rparr>,
                       visited)))"

section \<open>Fuzzer\<close>

text \<open>
  \<open>_generate_patterns\<close> builds a list from fixed tables and the current year and
  removes the duplicates through a set: that list is the parameter \<open>fuzz_words\<close>.
  The configured extensions are then added to every pattern.
\<close>

definition generate_patterns :: "string list \<Rightarrow> scan_config \<Rightarrow> string list" where
  "generate_patterns fuzz_words cfg =
     (if extensions cfg \<noteq> []
      then concat (map (\<lambda>pattern. pattern # map (\<lambda>ext. pattern @ ''.'' @ ext) (extensions cfg))
                     fuzz_words)
      else fuzz_words)"

text \<open>
  \<open>Fuzzer.scan\<close> makes a session of its own, with the configured user agent only.
\<close>

definition fuzzer_session :: "scan_config \<Rightarrow> http_session" where
  "fuzzer_session cfg =
     \<lparr>sess_headers = [(''User-Agent'', user_agent cfg)], sess_cookies = [], sess_proxies = [],
      sess_retry = False\<rparr>"

definition fuzz_request :: "scan_config \<Rightarrow> string \<Rightarrow> http_request" where
  "fuzz_request cfg u =
     \<lparr>req_session = fuzzer_session cfg, req_method = ''GET'', req_url = u,
      req_timeout = timeout cfg, req_redirects = True\<rparr>"

text \<open>
  \<open>Fuzzer._make_request\<close>: a result for every answer whose status is not 404, 403 or
  429 (the text cut to 500 characters).  A request that raises is passed over; nothing
  is logged.
\<close>

definition fuzz_make_request :: "http_client \<Rightarrow> scan_config \<Rightarrow> string \<Rightarrow> result option" where
  "fuzz_make_request http cfg u =
     (case http (fuzzer_session cfg) ''GET'' u (timeout cfg) True of
        Response resp \<Rightarrow>
          if resp_status resp \<notin> set [404, 403, 429]
          then Some \<lparr>url = u, status_code = resp_status resp, content_length = resp_length resp,
                     content = (if length (resp_text resp) > 500 then take 500 (resp_text resp)
                                else resp_text resp)\<rparr>
          else None
      | RequestException e \<Rightarrow> None)"

fun fuzz_loop ::
  "http_client \<Rightarrow> urllib \<Rightarrow> scan_config \<Rightarrow> string \<Rightarrow> string list \<Rightarrow> result list \<Rightarrow> probe_trace
     \<Rightarrow> result list option \<times> probe_trace" where
  "fuzz_loop http lib cfg base_url [] results tr = (Some results, tr)"
| "fuzz_loop http lib cfg base_url (pattern # ps) results tr =
     (case urljoin lib base_url pattern of
        None \<Rightarrow> (None, tr)
      | Some t \<Rightarrow>
          fuzz_loop http lib cfg base_url ps
            (case fuzz_make_request http cfg t of None \<Rightarrow> results | Some x \<Rightarrow> results @ [x])
            (tr\<lparr>requests := requests tr @ [fuzz_request cfg t]\<rparr>))"

definition fuzzer_scan ::
  "http_client \<Rightarrow> urllib \<Rightarrow> scan_config \<Rightarrow> string list \<Rightarrow> string
     \<Rightarrow> result list option \<times> probe_trace" where
  "fuzzer_scan http lib cfg patterns base_url =
     fuzz_loop http lib cfg base_url patterns []
       \<lparr>requests = [],
        logged = [(''INFO'', ''Starting fuzzing scan on '' @ base_url @ '' with ''
                     @ str_int (int (length patterns)) @ '' patterns'')],
        sleeps = []\<rparr>"

section \<open>ContentAnalyzer\<close>

text \<open>
  \<open>_scan_url\<close> hands every result to \<open>analyze_response\<close> as a mock response whose
  \<open>content\<close> is the stored text, and updates the result with the analysis.  Of the
  four keys of the record the analysis repeats \<open>url\<close> and \<open>status_code\<close> and sets
  \<open>content_length\<close> to the length of the stored text; the other keys it writes are read
  nowhere in the scan.  It reads no configuration field.
\<close>

definition analyze_result :: "result \<Rightarrow> result" where
  "analyze_result r = r\<lparr>content_length := int (length (content r))\<rparr>"

section \<open>DeepScanner.\_scan\_url\<close>

text \<open>
  The counters of \<open>RealtimeMonitor\<close>; \<open>update_stats\<close> adds to them.  (The rates derived
  from the clock are left out.)  The report of the monitor and its
  \<open>_calculate_error_rate\<close> read \<open>failed_requests\<close>.
\<close>

record monitor_stats =
  total_requests :: int
  successful_requests :: int
  failed_requests :: int
  found_paths :: int

text \<open>
  \<open>update_stats(total_requests=n)\<close> and \<open>update_stats(found_paths=n)\<close>, the two calls
  the scanner makes.
\<close>

definition update_total_requests :: "int \<Rightarrow> monitor_stats \<Rightarrow> monitor_stats" where
  "update_total_requests n stats = stats\<lparr>total_requests := total_requests stats + n\<rparr>"

definition update_found_paths :: "int \<Rightarrow> monitor_stats \<Rightarrow> monitor_stats" where
  "update_found_paths n stats = stats\<lparr>found_paths := found_paths stats + n\<rparr>"

text \<open>
  The objects a \<open>DeepScanner\<close> holds and all calls of \<open>_scan_url\<close> share: the session
  (the anti-WAF step changes its headers), the response cache of the filter, the
  monitor (started or not, and its counters), and the visited set of the crawler.
\<close>

record scanner_shared =
  sh_session :: http_session
  sh_cache :: response_cache
  sh_monitoring :: bool
  sh_stats :: monitor_stats
  sh_crawled :: "string list"

text \<open>The state after \<open>DeepScanner.__init__\<close>.\<close>

definition init_shared :: "scan_config \<Rightarrow> scanner_shared" where
  "init_shared cfg =
     \<lparr>sh_session = create_session cfg, sh_cache = Map.empty, sh_monitoring = False,
      sh_stats = \<lparr>total_requests = 0, successful_requests = 0, failed_requests = 0,
                  found_paths = 0\<rparr>,
      sh_crawled = []\<rparr>"

text \<open>
  What \<open>_scan_url\<close> is given from outside the program: the network, the standard
  library, the random numbers and the float addition of the delay, the file system, the
  order of a set, the patterns of the fuzzer, the random draws of the anti-WAF step, the
  failure of the HTML parser, the regular-expression engine and the digest.
\<close>

record scan_env =
  env_http :: http_client
  env_urllib :: urllib
  env_uniform :: "nat \<Rightarrow> real \<Rightarrow> real \<Rightarrow> real"
  env_fadd :: "real \<Rightarrow> real \<Rightarrow> real"
  env_read_lines :: "string \<Rightarrow> file_read"
  env_set_order :: "string list \<Rightarrow> string list"
  env_fuzz_words :: "string list"
  env_waf_draws :: waf_draws
  env_html_error :: "string \<Rightarrow> string \<Rightarrow> string option"
  env_re_search :: regex_search
  env_md5 :: "string \<Rightarrow> string"

text \<open>
  \<open>_scan_url\<close>, threading the shared state.  The outcome is \<open>Raised\<close> when one of the
  three scans raised; nothing after it is executed then, and what was changed before
  stays changed.  The wordlist and the patterns are computed when the scanner is built;
  the model computes them from the same files and tables.  The monitor thread, which
  only recomputes the rates, is not modelled, and neither is the interleaving of calls
  that run at the same time in the thread pool: a call is modelled from its start to its
  end.  The argument \<open>depth\<close> is not used, as in the source.
\<close>

definition scan_url ::
  "scan_env \<Rightarrow> scan_config \<Rightarrow> scanner_shared \<Rightarrow> string \<Rightarrow> int
     \<Rightarrow> scan_outcome \<times> probe_trace \<times> scanner_shared" where
  "scan_url env cfg shared u depth =
     (let tr = \<lparr>requests = [],
                logged = (if sh_monitoring shared then []
                          else [(''INFO'', ''Real-time monitoring started'')]),
                sleeps = []\<rparr>;
          shared = shared\<lparr>sh_monitoring := True\<rparr>;
          shared = (if anti_waf cfg
                    then shared\<lparr>sh_session := apply_techniques (env_waf_draws env) (sh_session shared)\<rparr>
                    else shared);
          (brute, brute_tr) =
             (if brute_force cfg
              then brute_scan (env_http env) (env_urllib env) (env_uniform env) (env_fadd env) cfg
                     (sh_session shared)
                     (fst (load_wordlist (env_read_lines env) (env_set_order env) cfg)) u
              else (Some [], empty_trace));
          tr = trace_append tr brute_tr
      in case brute of
           None \<Rightarrow> (Raised, tr, shared)
         | Some brute_results \<Rightarrow>
             (let shared = (if brute_force cfg
                            then shared\<lparr>sh_stats := update_total_requests
                                                        (int (length brute_results)) (sh_stats shared)\<rparr>
                            else shared);
                  (crawl, crawl_tr, crawled) =
                     (if crawling cfg
                      then crawler_scan (env_http env) (env_html_error env) cfg (sh_session shared)
                             (sh_crawled shared) u
                      else (Some [], empty_trace, sh_crawled shared));
                  tr = trace_append tr crawl_tr;
                  shared = shared\<lparr>sh_crawled := crawled\<rparr>
              in case crawl of
                   None \<Rightarrow> (Raised, tr, shared)
                 | Some crawl_results \<Rightarrow>
                     (let shared = (if crawling cfg
                                    then shared\<lparr>sh_stats := update_total_requests
                                                       (int (length crawl_results)) (sh_stats shared)\<rparr>
                                    else shared);
                          (fuzz, fuzz_tr) =
                             (if fuzz_patterns cfg
                              then fuzzer_scan (env_http env) (env_urllib env) cfg
                                     (generate_patterns (env_fuzz_words env) cfg) u
                              else (Some [], empty_trace));
                          tr = trace_append tr fuzz_tr
                      in case fuzz of
                           None \<Rightarrow> (Raised, tr, shared)
                         | Some fuzz_results \<Rightarrow>
                             (let shared = (if fuzz_patterns cfg
                                            then shared\<lparr>sh_stats := update_total_requests
                                                     (int (length fuzz_results)) (sh_stats shared)\<rparr>
                                            else shared);
                                  results = map analyze_result
                                              (brute_results @ crawl_results @ fuzz_results);
                                  (filtered, cache) =
                                     filter_results (env_re_search env) (env_md5 env) cfg
                                       (sh_cache shared) results;
                                  filtered = prioritize_results filtered;
                                  shared = shared\<lparr>sh_cache := cache,
                                                  sh_stats := update_found_paths
                                                     (int (length filtered)) (sh_stats shared)\<rparr>
                              in (Returned filtered, tr, shared)))))"

section \<open>Example inputs\<close>

text \<open>Concrete results and configurations on which the theorems below are run.\<close>

definition res :: "string \<Rightarrow> int \<Rightarrow> int \<Rightarrow> string \<Rightarrow> result" where
  "res u s n c = \<lparr>url = u, status_code = s, content_length = n, content = c\<rparr>"

text \<open>Scenarios B and E of the specification: 404 and 429 excluded, minimum size 100.\<close>

definition cfgBE :: scan_config where
  "cfgBE = default_config\<lparr>include_status_codes := [], exclude_status_codes := [404, 429],
             min_response_size := 100\<rparr>"

text \<open>
  A stand-in for \<open>urlparse\<close> on urls of the shape \<open>scheme://host/path\<close>, where it
  agrees with the library: the scheme ends at the first colon and the network location
  runs from after \<open>://\<close> to the next slash, question mark or hash.  The stand-in for
  \<open>urljoin\<close> appends the reference to the base; the examples call it only with a base
  that ends with a slash and a plain relative path, where the library does the same.
\<close>

definition simple_urlparse :: "string \<Rightarrow> (string \<times> string) option" where
  "simple_urlparse u =
     (let scheme = takeWhile (\<lambda>c. c \<noteq> CHR '':'') u; rest = drop (length scheme) u
      in if startswith rest ''://''
         then Some (scheme, takeWhile (\<lambda>c. c \<notin> set ''/?#'') (drop 3 rest))
         else Some ([], []))"

definition simple_urllib :: urllib where
  "simple_urllib = \<lparr>urlparse = simple_urlparse, urljoin = (\<lambda>base rel. Some (base @ rel))\<rparr>"

text \<open>A page whose body is one link: \<open><a href="PATH">\<close>.\<close>

definition page :: "string \<Rightarrow> int \<Rightarrow> string \<Rightarrow> result" where
  "page u s path = res u s 30 (''<a href='' @ [CHR 0x22] @ path @ [CHR 0x22] @ ''>'')"

text \<open>Scenario C: recursion on 200 and 301, maximum depth 1.\<close>

definition cfgC :: scan_config where
  "cfgC = default_config\<lparr>recursive := True, max_depth := 1, recursion_status_codes := [200, 301]\<rparr>"

text \<open>A recursive scan with a negative maximum depth, as \<open>-r -d -1\<close> sets it.\<close>

definition cfgNeg :: scan_config where
  "cfgNeg = default_config\<lparr>recursive := True, max_depth := - 1\<rparr>"

text \<open>A recursive scan with the default maximum depth 2.\<close>

definition cfgR :: scan_config where
  "cfgR = default_config\<lparr>recursive := True\<rparr>"

text \<open>
  A state of the loop, written out: the queue, the pending futures, the collected
  results, the visited set and the submitted scans (nothing logged).
\<close>

definition st ::
  "(string \<times> int) list \<Rightarrow> (string \<times> int) list \<Rightarrow> result list \<Rightarrow> string set
     \<Rightarrow> (string \<times> int) list \<Rightarrow> scanner_state" where
  "st q f rs v sub =
     \<lparr>scan_queue = q, futures = f, results_acc = rs, visited_urls = v, submitted = sub,
      error_log = []\<rparr>"

text \<open>
  A network on which the request for \<open>https://a/admin/\<close> times out and every other
  request is answered with status 200 and the body \<open>hello\<close>.
\<close>

definition flaky_http :: http_client where
  "flaky_http sess method u tmo redirects =
     (if u = ''https://a/admin/'' then RequestException ''timed out''
      else Response \<lparr>resp_status = 200, resp_length = 5, resp_text = ''hello''\<rparr>)"

text \<open>
  The world around a scan on that network: one wordlist file \<open>words.txt\<close> with the
  lines \<open>admin\<close> and \<open>index.html\<close> (the second with blanks around it), a set order
  that leaves a list without duplicates as it is, one fuzzing pattern \<open>admin/\<close>,
  anti-WAF draws that rotate the user agent, an
  HTML parser that never fails, a regular-expression engine that never matches and the
  identity for the digest.
\<close>

definition flaky_env :: scan_env where
  "flaky_env =
     \<lparr>env_http = flaky_http, env_urllib = simple_urllib,
      env_uniform = (\<lambda>k lo hi. lo), env_fadd = (\<lambda>a b. a + b),
      env_read_lines = (\<lambda>p. if p = ''words.txt'' then Lines [''admin'', '' index.html '']
                              else FileNotFoundError),
      env_set_order = remdups, env_fuzz_words = [''admin/''],
      env_waf_draws = \<lparr>rotate_user_agent = True, chosen_user_agent = ''Mozilla/5.0'',
                        rotate_accept = False, chosen_accept = ''*/*'',
                        add_extra_headers = False\<rparr>,
      env_html_error = (\<lambda>c u. None), env_re_search = (\<lambda>p s. False), env_md5 = (\<lambda>s. s)\<rparr>"

text \<open>
  A brute force scan with the wordlist \<open>words.txt\<close> as it is (no extensions), without
  crawling.
\<close>

definition cfgB :: scan_config where
  "cfgB = default_config\<lparr>wordlists := [''words.txt''], extensions := [], crawling := False\<rparr>"

section \<open>Priority ordering\<close>

lemma map_key_sort_key: "map f (sort_key f xs) = sort (map f xs)"
  by (rule properties_for_sort[symmetric]) (simp_all add: sorted_sort_key)

lemma sort_mset_cong: "mset xs = mset ys \<Longrightarrow> sort xs = sort ys"
  by (rule properties_for_sort) simp_all

lemma prioritize_scores_order_free:
  "mset rs' = mset rs \<Longrightarrow>
     map sort_key_result (prioritize_results rs') = map sort_key_result (prioritize_results rs)"
  unfolding prioritize_results_def map_key_sort_key
  by (rule sort_mset_cong) (metis mset_map)

lemma prioritize_order_free_distinct_scores:
  "mset rs' = mset rs \<Longrightarrow> inj_on sort_key_result (set rs) \<Longrightarrow>
     prioritize_results rs' = prioritize_results rs"
  unfolding prioritize_results_def
  by (rule sort_key_eq_sort_key[symmetric]) simp_all

text \<open>
  C3, as stated, fails: two results with the same score come out in the order they
  went in, so swapping them in the input swaps them in the output.
\<close>

theorem prioritize_reorder_counterexample:
  "mset [res ''/b'' 200 500 ''y'', res ''/a'' 200 500 ''x'']
     = mset [res ''/a'' 200 500 ''x'', res ''/b'' 200 500 ''y'']
   \<and> prioritize_results [res ''/b'' 200 500 ''y'', res ''/a'' 200 500 ''x'']
     \<noteq> prioritize_results [res ''/a'' 200 500 ''x'', res ''/b'' 200 500 ''y'']"
  by (simp add: prioritize_results_def sort_key_result_def res_def)

text \<open>
  C3 (amended): \<open>prioritize_results\<close> returns its input sorted ascending by the score
  (base 0 for status 200, 1 for 301 or 302, 2 for 403, 3 for 401, 10 otherwise; plus 5
  for content length zero, else plus 2 for a length below 100, else plus 1 for a length
  above 1,000,000).  The output is a permutation of the input and the sort is stable:
  the results of any one score keep their input order.  Reordering the input never
  changes the sequence of scores of the output, and never changes the output itself
  when no two results of the set have the same score.
\<close>

theorem prioritize_results_sorted_stable:
  "sort_key_result r =
     (if status_code r = 200 then 0
      else if status_code r = 301 \<or> status_code r = 302 then 1
      else if status_code r = 403 then 2
      else if status_code r = 401 then 3 else 10)
     + (if content_length r = 0 then 5
        else if content_length r < 100 then 2
        else if content_length r > 1000000 then 1 else 0)
   \<and> sorted (map sort_key_result (prioritize_results rs))
   \<and> mset (prioritize_results rs) = mset rs
   \<and> filter (\<lambda>x. sort_key_result x = k) (prioritize_results rs)
       = filter (\<lambda>x. sort_key_result x = k) rs
   \<and> (mset rs' = mset rs \<longrightarrow>
        map sort_key_result (prioritize_results rs') = map sort_key_result (prioritize_results rs))
   \<and> (mset rs' = mset rs \<and> inj_on sort_key_result (set rs) \<longrightarrow>
        prioritize_results rs' = prioritize_results rs)"
proof -
  have score: "sort_key_result r =
     (if status_code r = 200 then 0
      else if status_code r = 301 \<or> status_code r = 302 then 1
      else if status_code r = 403 then 2
      else if status_code r = 401 then 3 else 10)
     + (if content_length r = 0 then 5
        else if content_length r < 100 then 2
        else if content_length r > 1000000 then 1 else 0)"
    by (simp add: sort_key_result_def Let_def)
  have srt: "sorted (map sort_key_result (prioritize_results rs))"
    by (simp add: prioritize_results_def sorted_sort_key)
  have perm: "mset (prioritize_results rs) = mset rs"
    by (simp add: prioritize_results_def)
  have stable: "filter (\<lambda>x. sort_key_result x = k) (prioritize_results rs)
       = filter (\<lambda>x. sort_key_result x = k) rs"
    by (simp add: prioritize_results_def sort_key_stable)
  from score srt perm stable prioritize_scores_order_free
    prioritize_order_free_distinct_scores
  show ?thesis by blast
qed

theorem prioritize_results_sorted_stable_witness:
  "mset [res ''/b'' 403 500 ''y'', res ''/a'' 200 500 ''x'']
     = mset [res ''/a'' 200 500 ''x'', res ''/b'' 403 500 ''y'']
   \<and> inj_on sort_key_result (set [res ''/a'' 200 500 ''x'', res ''/b'' 403 500 ''y''])
   \<and> prioritize_results [res ''/b'' 403 500 ''y'', res ''/a'' 200 500 ''x'']
       = prioritize_results [res ''/a'' 200 500 ''x'', res ''/b'' 403 500 ''y'']
   \<and> prioritize_results [res ''/b'' 403 500 ''y'', res ''/a'' 200 500 ''x'']
       = [res ''/a'' 200 500 ''x'', res ''/b'' 403 500 ''y'']"
proof -
  have m: "mset [res ''/b'' 403 500 ''y'', res ''/a'' 200 500 ''x'']
     = mset [res ''/a'' 200 500 ''x'', res ''/b'' 403 500 ''y'']"
    by simp
  have i: "inj_on sort_key_result (set [res ''/a'' 200 500 ''x'', res ''/b'' 403 500 ''y''])"
    by (simp add: sort_key_result_def res_def)
  have v: "prioritize_results [res ''/a'' 200 500 ''x'', res ''/b'' 403 500 ''y'']
       = [res ''/a'' 200 500 ''x'', res ''/b'' 403 500 ''y'']"
    by (simp add: prioritize_results_def sort_key_result_def res_def)
  from prioritize_results_sorted_stable
    [of "res ''/a'' 200 500 ''x''" "[res ''/a'' 200 500 ''x'', res ''/b'' 403 500 ''y'']" 0
        "[res ''/b'' 403 500 ''y'', res ''/a'' 200 500 ''x'']"] m i v
  show ?thesis by simp
qed

section \<open>Exact deduplication\<close>


lemma digit_char_cases:
  "d < 10 \<Longrightarrow> d = 0 \<or> d = 1 \<or> d = 2 \<or> d = 3 \<or> d = 4 \<or> d = 5 \<or> d = 6 \<or> d = 7 \<or> d = 8 \<or> d = (9::nat)"
  by arith

lemma digit_char_inj: "a < 10 \<Longrightarrow> b < 10 \<Longrightarrow> digit_char a = digit_char b \<Longrightarrow> a = b"
  using digit_char_cases[of a] digit_char_cases[of b]
  by (auto simp: digit_char_def)

lemma digit_char_plain: "digit_char d \<noteq> CHR '':'' \<and> digit_char d \<noteq> CHR ''-''"
  using digit_char_cases[of "d mod 10"]
  by (auto simp: digit_char_def)

lemma str_nat_not_Nil: "str_nat n \<noteq> []" "[] \<noteq> str_nat n"
  by (subst str_nat.simps, simp)+

lemma str_nat_plain: "c \<in> set (str_nat n) \<Longrightarrow> c \<noteq> CHR '':'' \<and> c \<noteq> CHR ''-''"
proof (induction n rule: str_nat.induct)
  case (1 n)
  show ?case
  proof (cases "n < 10")
    case True
    with "1.prems" show ?thesis
      by (subst (asm) str_nat.simps) (simp add: digit_char_plain)
  next
    case False
    with "1.prems" have "c \<in> set (str_nat (n div 10)) \<or> c = digit_char (n mod 10)"
      by (subst (asm) str_nat.simps) auto
    with "1.IH" False show ?thesis
      by (auto simp: digit_char_plain)
  qed
qed

lemma str_nat_inj: "str_nat a = str_nat b \<Longrightarrow> a = b"
proof (induction a arbitrary: b rule: str_nat.induct)
  case (1 a)
  have ea: "str_nat a = (if a < 10 then [digit_char a] else str_nat (a div 10) @ [digit_char (a mod 10)])"
    by (rule str_nat.simps)
  have eb: "str_nat b = (if b < 10 then [digit_char b] else str_nat (b div 10) @ [digit_char (b mod 10)])"
    by (rule str_nat.simps)
  show ?case
  proof (cases "a < 10")
    case a: True
    show ?thesis
    proof (cases "b < 10")
      case True
      with a ea eb "1.prems" show ?thesis by (simp add: digit_char_inj)
    next
      case False
      with a ea eb "1.prems" show ?thesis by (simp add: str_nat_not_Nil)
    qed
  next
    case a: False
    show ?thesis
    proof (cases "b < 10")
      case True
      with a ea eb "1.prems" show ?thesis by (simp add: str_nat_not_Nil)
    next
      case False
      with a ea eb "1.prems"
      have t: "str_nat (a div 10) = str_nat (b div 10)"
        and d: "digit_char (a mod 10) = digit_char (b mod 10)" by simp_all
      from "1.IH"[OF a t] have "a div 10 = b div 10" .
      moreover from d have "a mod 10 = b mod 10" by (simp add: digit_char_inj)
      ultimately show ?thesis by (metis div_mult_mod_eq)
    qed
  qed
qed

lemma str_int_plain: "CHR '':'' \<notin> set (str_int i)"
  using str_nat_plain by (auto simp: str_int_def)

lemma str_int_inj: "str_int a = str_int b \<Longrightarrow> a = b"
proof -
  assume e: "str_int a = str_int b"
  have hd_pos: "hd (str_nat n) \<noteq> CHR ''-''" for n
    using str_nat_plain[of "hd (str_nat n)" n] str_nat_not_Nil[of n] by simp
  show ?thesis
  proof (cases "a < 0")
    case a: True
    show ?thesis
    proof (cases "b < 0")
      case True
      with a e have "str_nat (nat (- a)) = str_nat (nat (- b))" by (simp add: str_int_def)
      then have "nat (- a) = nat (- b)" by (rule str_nat_inj)
      with a True show ?thesis by simp
    next
      case False
      with a e have "CHR ''-'' # str_nat (nat (- a)) = str_nat (nat b)" by (simp add: str_int_def)
      then have "hd (str_nat (nat b)) = CHR ''-''" by (metis list.sel(1))
      with hd_pos show ?thesis by blast
    qed
  next
    case a: False
    show ?thesis
    proof (cases "b < 0")
      case True
      with a e have "str_nat (nat a) = CHR ''-'' # str_nat (nat (- b))" by (simp add: str_int_def)
      then have "hd (str_nat (nat a)) = CHR ''-''" by (metis list.sel(1))
      with hd_pos show ?thesis by blast
    next
      case False
      with a e have "str_nat (nat a) = str_nat (nat b)" by (simp add: str_int_def)
      then have "nat a = nat b" by (rule str_nat_inj)
      with a False show ?thesis by simp
    qed
  qed
qed

lemma split_at_last_colon:
  assumes "u1 @ CHR '':'' # s1 = u2 @ CHR '':'' # s2"
    and "CHR '':'' \<notin> set s1" and "CHR '':'' \<notin> set s2"
  shows "u1 = u2 \<and> s1 = s2"
proof -
  from assms(1) have "rev (u1 @ CHR '':'' # s1) = rev (u2 @ CHR '':'' # s2)" by simp
  then have e: "rev s1 @ CHR '':'' # rev u1 = rev s2 @ CHR '':'' # rev u2" by simp
  have "takeWhile (\<lambda>c. c \<noteq> CHR '':'') (rev s1 @ CHR '':'' # rev u1) = rev s1"
    using assms(2) by (auto simp: takeWhile_tail)
  moreover have "takeWhile (\<lambda>c. c \<noteq> CHR '':'') (rev s2 @ CHR '':'' # rev u2) = rev s2"
    using assms(3) by (auto simp: takeWhile_tail)
  ultimately have "rev s1 = rev s2" using e by simp
  then have "s1 = s2" by simp
  with assms(1) show ?thesis by simp
qed

lemma dedup_key_inj:
  "dedup_key a = dedup_key b \<longleftrightarrow> url a = url b \<and> status_code a = status_code b"
proof
  assume "dedup_key a = dedup_key b"
  then have "url a @ CHR '':'' # str_int (status_code a) = url b @ CHR '':'' # str_int (status_code b)"
    by (simp add: dedup_key_def)
  from split_at_last_colon[OF this str_int_plain str_int_plain]
  show "url a = url b \<and> status_code a = status_code b"
    by (auto dest: str_int_inj)
qed (simp add: dedup_key_def)


lemma remove_duplicates_loop_filter:
  "filter (\<lambda>x. dedup_key x = k) (remove_duplicates_loop seen acc rs) =
     filter (\<lambda>x. dedup_key x = k) acc @
       (if k \<in> seen then [] else (case find (\<lambda>x. dedup_key x = k) rs of None \<Rightarrow> [] | Some r \<Rightarrow> [r]))"
proof (induction rs arbitrary: seen acc)
  case Nil
  show ?case by simp
next
  case (Cons r rs)
  show ?case
    by (auto simp: Cons.IH Let_def)
qed

lemma remove_duplicates_loop_set:
  "set (remove_duplicates_loop seen acc rs) \<subseteq> set acc \<union> set rs"
proof (induction rs arbitrary: seen acc)
  case Nil
  show ?case by simp
next
  case (Cons a rs)
  show ?case
    using Cons.IH[of "insert (dedup_key a) seen" "acc @ [a]"] Cons.IH[of seen acc]
    by (auto simp: Let_def)
qed


lemma replace_first_url_mset: "mset (replace_first_url u new xs) \<subseteq># add_mset new (mset xs)"
proof (induction xs)
  case Nil
  show ?case by simp
next
  case (Cons x xs)
  show ?case
  proof (cases "url x = u")
    case True
    have "add_mset new (mset xs) \<subseteq># add_mset new (add_mset x (mset xs))"
      by (simp add: mset_subset_eq_exists_conv)
    with True show ?thesis by simp
  next
    case False
    from Cons.IH have "add_mset x (mset (replace_first_url u new xs))
        \<subseteq># add_mset x (add_mset new (mset xs))"
      by simp
    with False show ?thesis by (simp add: add_mset_commute[of new x])
  qed
qed

lemma remove_similar_loop_mset:
  "mset (fst (remove_similar_loop md5 cache acc rs)) \<subseteq># mset acc + mset rs"
proof (induction rs arbitrary: cache acc)
  case Nil
  show ?case by simp
next
  case (Cons r rs)
  define h where "h = calculate_content_hash md5 (content r)"
  show ?case
  proof (cases "cache h")
    case None
    then have e: "remove_similar_loop md5 cache acc (r # rs)
        = remove_similar_loop md5 (cache(h \<mapsto> r)) (acc @ [r]) rs"
      by (simp add: Let_def h_def)
    have "mset (fst (remove_similar_loop md5 (cache(h \<mapsto> r)) (acc @ [r]) rs))
              \<subseteq># mset (acc @ [r]) + mset rs"
      by (rule Cons.IH)
    then show ?thesis unfolding e by simp
  next
    case (Some e)
    show ?thesis
    proof (cases "is_better_result r e")
      case True
      with Some have eq: "remove_similar_loop md5 cache acc (r # rs)
          = remove_similar_loop md5 (cache(h \<mapsto> r)) (replace_first_url (url e) r acc) rs"
        by (simp add: Let_def h_def)
      have "mset (fst (remove_similar_loop md5 (cache(h \<mapsto> r)) (replace_first_url (url e) r acc) rs))
              \<subseteq># mset (replace_first_url (url e) r acc) + mset rs"
        by (rule Cons.IH)
      also have "\<dots> \<subseteq># add_mset r (mset acc) + mset rs"
        using replace_first_url_mset[of "url e" r acc] by (rule subset_mset.add_right_mono)
      finally show ?thesis unfolding eq by simp
    next
      case False
      with Some have eq: "remove_similar_loop md5 cache acc (r # rs)
          = remove_similar_loop md5 cache acc rs"
        by (simp add: Let_def h_def)
      have "mset (fst (remove_similar_loop md5 cache acc rs)) \<subseteq># mset acc + mset rs"
        by (rule Cons.IH)
      also have "\<dots> \<subseteq># mset acc + add_mset r (mset rs)"
        by (simp add: mset_subset_eq_exists_conv)
      finally show ?thesis unfolding eq by simp
    qed
  qed
qed

lemma filter_results_mset:
  "mset (fst (filter_results re_search md5 cfg cache rs))
     \<subseteq># mset (remove_duplicates (filter (is_interesting re_search cfg) rs))"
  using remove_similar_loop_mset[of md5 cache "[]"]
  by (simp add: filter_results_def remove_similar_responses_def Let_def)

text \<open>
  C4, as stated, fails for a sequence of submissions: the set \<open>seen\<close> is a local
  variable of \<open>_remove_duplicates\<close>, so every call of the pipeline starts with no pair
  seen.  The same filter is given \<open>/a\<close> with status 200 in two calls (the bodies
  differ, so the response cache does not interfere), and emits the pair both times.
\<close>

theorem dedup_per_call_counterexample:
  "filter_results (\<lambda>p s. False) (\<lambda>s. s) default_config Map.empty [res ''/a'' 200 50 ''first'']
     = ([res ''/a'' 200 50 ''first''], [''first'' \<mapsto> res ''/a'' 200 50 ''first''])
   \<and> fst (filter_results (\<lambda>p s. False) (\<lambda>s. s) default_config
             [''first'' \<mapsto> res ''/a'' 200 50 ''first''] [res ''/a'' 200 50 ''second''])
       = [res ''/a'' 200 50 ''second'']"
  by (simp add: filter_results_def is_interesting_def is_false_positive_def
      false_positive_patterns_def default_config_def remove_duplicates_def
      remove_similar_responses_def calculate_content_hash_def res_def Let_def
      format_size_def lower_def lower_char_def is_space_def)

text \<open>
  C4 (amended): within one call of the pipeline, results are deduplicated by the pair
  (url, status code), first seen wins.  \<open>_remove_duplicates\<close> keeps, for every pair,
  exactly the first result with that pair of the list it is given (and nothing for a pair
  that does not occur): a pair submitted twice, or more often, yields exactly one result,
  the first one seen.  The list it is given is what the acceptance filter accepted, and
  the collapse stage after it only drops or moves results; so the output of
  \<open>filter_results\<close> holds at most one result with a given pair, and that one is the
  first accepted result with the pair.
\<close>

theorem remove_duplicates_first_seen:
  "filter (\<lambda>x. url x = u \<and> status_code x = s) (remove_duplicates rs)
     = (case find (\<lambda>x. url x = u \<and> status_code x = s) rs of None \<Rightarrow> [] | Some r \<Rightarrow> [r])
   \<and> (r \<in> set rs \<longrightarrow>
        length (filter (\<lambda>x. url x = url r \<and> status_code x = status_code r)
                  (remove_duplicates rs)) = 1)
   \<and> set (remove_duplicates rs) \<subseteq> set rs
   \<and> mset (filter (\<lambda>x. url x = u \<and> status_code x = s)
              (fst (filter_results re_search md5 cfg cache rs)))
        \<subseteq># mset (case find (\<lambda>x. url x = u \<and> status_code x = s)
                         (filter (is_interesting re_search cfg) rs) of
                    None \<Rightarrow> [] | Some r \<Rightarrow> [r])"
proof -
  have eq: "filter (\<lambda>x. url x = u' \<and> status_code x = s') (remove_duplicates xs)
     = (case find (\<lambda>x. url x = u' \<and> status_code x = s') xs of None \<Rightarrow> [] | Some r \<Rightarrow> [r])"
    for u' s' xs
  proof -
    define k where "k = dedup_key \<lparr>url = u', status_code = s', content_length = 0, content = []\<rparr>"
    have p: "(\<lambda>x. dedup_key x = k) = (\<lambda>x. url x = u' \<and> status_code x = s')"
      by (simp add: k_def dedup_key_inj)
    from remove_duplicates_loop_filter[of k "{}" "[]" xs] show ?thesis
      by (simp add: remove_duplicates_def p)
  qed
  have one: "length (filter (\<lambda>x. url x = url r \<and> status_code x = status_code r)
                  (remove_duplicates rs)) = 1" if "r \<in> set rs"
  proof -
    from that have "find (\<lambda>x. url x = url r \<and> status_code x = status_code r) rs \<noteq> None"
      by (auto simp: find_None_iff)
    then show ?thesis by (auto simp: eq)
  qed
  have sub: "set (remove_duplicates rs) \<subseteq> set rs"
    using remove_duplicates_loop_set[of "{}" "[]" rs] by (simp add: remove_duplicates_def)
  have "mset (filter (\<lambda>x. url x = u \<and> status_code x = s)
              (fst (filter_results re_search md5 cfg cache rs)))
        \<subseteq># mset (filter (\<lambda>x. url x = u \<and> status_code x = s)
                    (remove_duplicates (filter (is_interesting re_search cfg) rs)))"
    unfolding mset_filter using filter_results_mset by (rule multiset_filter_mono)
  then have pipe: "mset (filter (\<lambda>x. url x = u \<and> status_code x = s)
              (fst (filter_results re_search md5 cfg cache rs)))
        \<subseteq># mset (case find (\<lambda>x. url x = u \<and> status_code x = s)
                         (filter (is_interesting re_search cfg) rs) of
                    None \<Rightarrow> [] | Some r \<Rightarrow> [r])"
    by (simp only: eq)
  from eq[of u s rs] one sub pipe show ?thesis by blast
qed

theorem remove_duplicates_first_seen_witness:
  "res ''/a'' 200 500 ''second''
     \<in> set [res ''/a'' 200 10 ''tiny'', res ''/a'' 200 500 ''first'', res ''/a'' 200 500 ''second'']
   \<and> filter (\<lambda>x. url x = ''/a'' \<and> status_code x = 200)
        (remove_duplicates
           [res ''/a'' 200 10 ''tiny'', res ''/a'' 200 500 ''first'', res ''/a'' 200 500 ''second''])
       = [res ''/a'' 200 10 ''tiny'']
   \<and> mset (filter (\<lambda>x. url x = ''/a'' \<and> status_code x = 200)
        (fst (filter_results (\<lambda>p s. False) (\<lambda>s. s) cfgBE Map.empty
           [res ''/a'' 200 10 ''tiny'', res ''/a'' 200 500 ''first'', res ''/a'' 200 500 ''second''])))
       \<subseteq># mset [res ''/a'' 200 500 ''first'']
   \<and> fst (filter_results (\<lambda>p s. False) (\<lambda>s. s) cfgBE Map.empty
           [res ''/a'' 200 10 ''tiny'', res ''/a'' 200 500 ''first'', res ''/a'' 200 500 ''second''])
       = [res ''/a'' 200 500 ''first'']"
proof -
  let ?rs = "[res ''/a'' 200 10 ''tiny'', res ''/a'' 200 500 ''first'', res ''/a'' 200 500 ''second'']"
  have acc: "filter (is_interesting (\<lambda>p s. False) cfgBE) ?rs
      = [res ''/a'' 200 500 ''first'', res ''/a'' 200 500 ''second'']"
    by (simp add: is_interesting_def is_false_positive_def false_positive_patterns_def
        cfgBE_def default_config_def res_def Let_def format_size_def)
  note t = remove_duplicates_first_seen
    [of "''/a''" 200 ?rs "res ''/a'' 200 500 ''second''" "\<lambda>p s. False" "\<lambda>s. s" cfgBE Map.empty]
  have m: "res ''/a'' 200 500 ''second'' \<in> set ?rs" by simp
  from t[THEN conjunct1]
  have 1: "filter (\<lambda>x. url x = ''/a'' \<and> status_code x = 200) (remove_duplicates ?rs)
       = [res ''/a'' 200 10 ''tiny'']"
    by (simp add: res_def)
  from t[THEN conjunct2, THEN conjunct2, THEN conjunct2]
  have 2: "mset (filter (\<lambda>x. url x = ''/a'' \<and> status_code x = 200)
        (fst (filter_results (\<lambda>p s. False) (\<lambda>s. s) cfgBE Map.empty ?rs)))
       \<subseteq># mset [res ''/a'' 200 500 ''first'']"
    unfolding acc by (simp add: res_def)
  have 3: "fst (filter_results (\<lambda>p s. False) (\<lambda>s. s) cfgBE Map.empty ?rs)
       = [res ''/a'' 200 500 ''first'']"
    unfolding filter_results_def Let_def acc
    by (simp add: remove_duplicates_def dedup_key_def remove_similar_responses_def
        calculate_content_hash_def res_def Let_def lower_def lower_char_def is_space_def)
  from m 1 2 3 show ?thesis by (intro conjI)
qed

lemma remove_duplicates_scenario_A:
  "remove_duplicates [res ''/a'' 200 50 ''x'', res ''/a'' 200 50 ''x''] = [res ''/a'' 200 50 ''x'']"
  by code_simp

section \<open>Acceptance filter\<close>


lemma startswith_iff: "startswith s p \<longleftrightarrow> (\<exists>t. s = p @ t)"
  by (induction s p rule: startswith.induct) auto

lemma str_contains_iff: "str_contains s sub \<longleftrightarrow> (\<exists>a b. s = a @ sub @ b)"
proof (induction s)
  case Nil
  show ?case by auto
next
  case (Cons c s)
  show ?case
  proof
    assume "str_contains (c # s) sub"
    then consider "startswith (c # s) sub" | "str_contains s sub" by auto
    then show "\<exists>a b. c # s = a @ sub @ b"
    proof cases
      case 1
      then obtain t where "c # s = sub @ t" by (auto simp: startswith_iff)
      then have "c # s = [] @ sub @ t" by simp
      then show ?thesis by blast
    next
      case 2
      with Cons.IH obtain a b where "s = a @ sub @ b" by blast
      then have "c # s = (c # a) @ sub @ b" by simp
      then show ?thesis by blast
    qed
  next
    assume "\<exists>a b. c # s = a @ sub @ b"
    then obtain a b where e: "c # s = a @ sub @ b" by blast
    show "str_contains (c # s) sub"
    proof (cases a)
      case Nil
      with e have "startswith (c # s) sub" by (auto simp: startswith_iff)
      then show ?thesis by simp
    next
      case (Cons a0 a')
      with e have "s = a' @ sub @ b" by simp
      with Cons.IH have "str_contains s sub" by blast
      then show ?thesis by simp
    qed
  qed
qed

lemma replace_first_url_set: "set (replace_first_url u n xs) \<subseteq> insert n (set xs)"
  by (induction xs) auto

lemma remove_similar_loop_set:
  "set (fst (remove_similar_loop md5 cache acc rs)) \<subseteq> set acc \<union> set rs"
proof (induction rs arbitrary: cache acc)
  case Nil
  show ?case by simp
next
  case (Cons r rs)
  define h where "h = calculate_content_hash md5 (content r)"
  show ?case
  proof (cases "cache h")
    case None
    then have e: "remove_similar_loop md5 cache acc (r # rs)
        = remove_similar_loop md5 (cache(h \<mapsto> r)) (acc @ [r]) rs"
      by (simp add: h_def)
    have "set (fst (remove_similar_loop md5 (cache(h \<mapsto> r)) (acc @ [r]) rs))
        \<subseteq> set (acc @ [r]) \<union> set rs"
      by (rule Cons.IH)
    then show ?thesis unfolding e by auto
  next
    case (Some existing)
    show ?thesis
    proof (cases "is_better_result r existing")
      case True
      with Some have e: "remove_similar_loop md5 cache acc (r # rs)
        = remove_similar_loop md5 (cache(h \<mapsto> r))
            (replace_first_url (url existing) r acc) rs"
        by (simp add: h_def)
      have "set (fst (remove_similar_loop md5 (cache(h \<mapsto> r))
            (replace_first_url (url existing) r acc) rs))
        \<subseteq> set (replace_first_url (url existing) r acc) \<union> set rs"
        by (rule Cons.IH)
      with replace_first_url_set[of "url existing" r acc]
      show ?thesis unfolding e by auto
    next
      case False
      with Some have e: "remove_similar_loop md5 cache acc (r # rs)
        = remove_similar_loop md5 cache acc rs"
        by (simp add: h_def)
      have "set (fst (remove_similar_loop md5 cache acc rs)) \<subseteq> set acc \<union> set rs"
        by (rule Cons.IH)
      then show ?thesis unfolding e by auto
    qed
  qed
qed

lemma filter_results_subset:
  "set (fst (filter_results re_search md5 cfg cache rs)) \<subseteq> {x \<in> set rs. is_interesting re_search cfg x}"
proof -
  have "set (fst (filter_results re_search md5 cfg cache rs))
          \<subseteq> set (remove_duplicates (filter (is_interesting re_search cfg) rs))"
    using remove_similar_loop_set
      [of md5 cache "[]" "remove_duplicates (filter (is_interesting re_search cfg) rs)"]
    by (simp add: filter_results_def remove_similar_responses_def)
  also have "\<dots> \<subseteq> set (filter (is_interesting re_search cfg) rs)"
    using remove_duplicates_loop_set[of "{}" "[]" "filter (is_interesting re_search cfg) rs"]
    by (simp add: remove_duplicates_def)
  finally show ?thesis by auto
qed

text \<open>
  C5: \<open>_is_interesting\<close> rejects a result exactly when one of these holds: an include
  list is configured (non-empty) and the status code is outside it; the status code is
  in the exclude list; a minimum (maximum) size is configured (non-zero) and the content
  length is below (above) it; the size formatted as bytes, KB or MB with integer
  division is an excluded size; the body contains an excluded literal; the body matches
  an excluded regular expression; the lower-cased body matches a built-in false-positive
  pattern.  Every result that \<open>filter_results\<close> returns is one of its inputs and is
  not rejected: so with 404 excluded no 404 result is in the output, and with a minimum
  size of 100 no result of content length 10 is.
\<close>

theorem is_interesting_rejects_exactly:
  "(\<not> is_interesting re_search cfg r \<longleftrightarrow>
      (include_status_codes cfg \<noteq> [] \<and> status_code r \<notin> set (include_status_codes cfg))
      \<or> status_code r \<in> set (exclude_status_codes cfg)
      \<or> (min_response_size cfg \<noteq> 0 \<and> content_length r < min_response_size cfg)
      \<or> (max_response_size cfg \<noteq> 0 \<and> content_length r > max_response_size cfg)
      \<or> (if content_length r < 1024 then str_int (content_length r) @ ''B''
          else if content_length r < 1048576 then str_int (content_length r div 1024) @ ''KB''
          else str_int (content_length r div 1048576) @ ''MB'') \<in> set (exclude_sizes cfg)
      \<or> (\<exists>t \<in> set (exclude_text cfg). \<exists>a b. content r = a @ t @ b)
      \<or> (\<exists>p \<in> set (exclude_regex cfg). re_search p (content r))
      \<or> (\<exists>p \<in> set false_positive_patterns. re_search p (lower (content r))))
   \<and> (\<forall>x \<in> set (fst (filter_results re_search md5 cfg cache rs)).
         x \<in> set rs \<and> is_interesting re_search cfg x)"
proof -
  have a: "\<not> is_interesting re_search cfg r \<longleftrightarrow>
      (include_status_codes cfg \<noteq> [] \<and> status_code r \<notin> set (include_status_codes cfg))
      \<or> status_code r \<in> set (exclude_status_codes cfg)
      \<or> (min_response_size cfg \<noteq> 0 \<and> content_length r < min_response_size cfg)
      \<or> (max_response_size cfg \<noteq> 0 \<and> content_length r > max_response_size cfg)
      \<or> (if content_length r < 1024 then str_int (content_length r) @ ''B''
          else if content_length r < 1048576 then str_int (content_length r div 1024) @ ''KB''
          else str_int (content_length r div 1048576) @ ''MB'') \<in> set (exclude_sizes cfg)
      \<or> (\<exists>t \<in> set (exclude_text cfg). \<exists>a b. content r = a @ t @ b)
      \<or> (\<exists>p \<in> set (exclude_regex cfg). re_search p (content r))
      \<or> (\<exists>p \<in> set false_positive_patterns. re_search p (lower (content r)))"
    unfolding is_interesting_def is_false_positive_def format_size_def matches_size_def
      Let_def list_ex_iff str_contains_iff
    by auto
  from a filter_results_subset[of re_search md5 cfg cache rs] show ?thesis by blast
qed



lemma filter_results_scenario_BE:
  "fst (filter_results (\<lambda>p s. False) (\<lambda>s. s) cfgBE Map.empty
          [res ''/gone'' 404 500 ''gone'', res ''/tiny'' 200 10 ''tiny'', res ''/ok'' 200 500 ''hello''])
     = [res ''/ok'' 200 500 ''hello'']"
  by (simp add: filter_results_def is_interesting_def is_false_positive_def list_ex_iff
      cfgBE_def default_config_def res_def remove_duplicates_def remove_similar_responses_def)

theorem is_interesting_rejects_exactly_witness:
  "res ''/ok'' 200 500 ''hello'' \<in> set (fst (filter_results (\<lambda>p s. False) (\<lambda>s. s) cfgBE Map.empty
          [res ''/gone'' 404 500 ''gone'', res ''/tiny'' 200 10 ''tiny'', res ''/ok'' 200 500 ''hello'']))
   \<and> is_interesting (\<lambda>p s. False) cfgBE (res ''/ok'' 200 500 ''hello'')
   \<and> \<not> is_interesting (\<lambda>p s. False) cfgBE (res ''/gone'' 404 500 ''gone'')
   \<and> \<not> is_interesting (\<lambda>p s. False) cfgBE (res ''/tiny'' 200 10 ''tiny'')
   \<and> res ''/gone'' 404 500 ''gone'' \<notin> set (fst (filter_results (\<lambda>p s. False) (\<lambda>s. s) cfgBE Map.empty
          [res ''/gone'' 404 500 ''gone'', res ''/tiny'' 200 10 ''tiny'', res ''/ok'' 200 500 ''hello'']))
   \<and> res ''/tiny'' 200 10 ''tiny'' \<notin> set (fst (filter_results (\<lambda>p s. False) (\<lambda>s. s) cfgBE Map.empty
          [res ''/gone'' 404 500 ''gone'', res ''/tiny'' 200 10 ''tiny'', res ''/ok'' 200 500 ''hello'']))"
proof -
  let ?rs = "[res ''/gone'' 404 500 ''gone'', res ''/tiny'' 200 10 ''tiny'', res ''/ok'' 200 500 ''hello'']"
  let ?out = "fst (filter_results (\<lambda>p s. False) (\<lambda>s. s) cfgBE Map.empty ?rs)"
  have m: "res ''/ok'' 200 500 ''hello'' \<in> set ?out"
    by (simp add: filter_results_scenario_BE)
  have g: "\<not> is_interesting (\<lambda>p s. False) cfgBE (res ''/gone'' 404 500 ''gone'')"
    using is_interesting_rejects_exactly
      [of "\<lambda>p s. False" cfgBE "res ''/gone'' 404 500 ''gone''" "\<lambda>s. s" Map.empty ?rs]
    by (simp add: cfgBE_def default_config_def res_def)
  have t: "\<not> is_interesting (\<lambda>p s. False) cfgBE (res ''/tiny'' 200 10 ''tiny'')"
    using is_interesting_rejects_exactly
      [of "\<lambda>p s. False" cfgBE "res ''/tiny'' 200 10 ''tiny''" "\<lambda>s. s" Map.empty ?rs]
    by (simp add: cfgBE_def default_config_def res_def)
  from is_interesting_rejects_exactly
      [of "\<lambda>p s. False" cfgBE "res ''/ok'' 200 500 ''hello''" "\<lambda>s. s" Map.empty ?rs]
  have all: "\<forall>x \<in> set ?out. x \<in> set ?rs \<and> is_interesting (\<lambda>p s. False) cfgBE x"
    by blast
  from m g t all show ?thesis by blast
qed


section \<open>Content-equivalence collapsing\<close>


lemma better_iff:
  "is_better_result x y \<longleftrightarrow>
     (status_code x = 200 \<and> status_code y \<noteq> 200)
     \<or> (status_code x \<noteq> 200 \<and> status_code y \<noteq> 200 \<and> status_code x < status_code y)"
  by (cases "status_code x = 200"; cases "status_code y = 200")
    (simp_all add: is_better_result_def Let_def)

text \<open>The comparison of the code is the rule of the specification.\<close>

lemma is_better_result_spec: "is_better_result x y = spec_beats x y"
  by (simp add: better_iff spec_beats_def)

lemma better_irrefl: "\<not> is_better_result x x"
  by (simp add: better_iff)

lemma better_asym: "is_better_result x y \<Longrightarrow> \<not> is_better_result y x"
  unfolding better_iff by linarith

lemma better_beats_unbeaten:
  "is_better_result x c \<Longrightarrow> \<not> is_better_result y c \<Longrightarrow> is_better_result x y"
  unfolding better_iff by linarith

lemma better_neg_trans:
  "\<not> is_better_result x c \<Longrightarrow> \<not> is_better_result c z \<Longrightarrow> \<not> is_better_result x z"
  unfolding better_iff by linarith

lemma unbeaten_same_status:
  "\<not> is_better_result x y \<Longrightarrow> \<not> is_better_result y x \<Longrightarrow> status_code x = status_code y"
  unfolding better_iff by linarith

lemma champion_append: "champion P cur (xs @ ys) = champion P (champion P cur xs) ys"
  by (induction xs arbitrary: cur) simp_all

lemma champion_None_iff: "champion P cur xs = None \<longleftrightarrow> cur = None \<and> (\<forall>x \<in> set xs. \<not> P x)"
  by (induction xs arbitrary: cur) (auto split: option.splits)

lemma find_append: "find Q (xs @ ys) = (case find Q xs of None \<Rightarrow> find Q ys | Some x \<Rightarrow> Some x)"
  by (induction xs) simp_all

lemma find_cong_set: "(\<And>x. x \<in> set xs \<Longrightarrow> Q x = Q' x) \<Longrightarrow> find Q xs = find Q' xs"
proof (induction xs)
  case Nil
  show ?case by simp
next
  case (Cons a xs)
  have "Q a = Q' a" by (rule Cons.prems) simp
  moreover have "find Q xs = find Q' xs" by (rule Cons.IH) (simp add: Cons.prems)
  ultimately show ?case by simp
qed


lemma champion_is_first_unbeaten: "champion P None rs = find (unbeaten P rs) rs"
proof (induction rs rule: rev_induct)
  case Nil
  show ?case by simp
next
  case (snoc x rs)
  have step: "champion P None (rs @ [x]) =
      (if P x then (case champion P None rs of None \<Rightarrow> Some x
                    | Some e \<Rightarrow> if is_better_result x e then Some x else Some e)
       else champion P None rs)"
    by (simp add: champion_append)
  show ?case
  proof (cases "P x")
    case False
    have "find (unbeaten P (rs @ [x])) (rs @ [x]) = find (unbeaten P rs) rs"
    proof -
      have "unbeaten P (rs @ [x]) z = unbeaten P rs z" for z
        using False by (auto simp: unbeaten_def)
      then have a: "unbeaten P (rs @ [x]) = unbeaten P rs" by (rule ext)
      have "\<not> unbeaten P rs x" using False by (simp add: unbeaten_def)
      then show ?thesis by (simp add: a find_append split: option.splits)
    qed
    with False step snoc.IH show ?thesis by simp
  next
    case True
    show ?thesis
    proof (cases "champion P None rs")
      case None
      then have noP: "\<forall>z \<in> set rs. \<not> P z" by (simp add: champion_None_iff)
      have "\<not> unbeaten P (rs @ [x]) z" if "z \<in> set rs" for z
        using that noP by (simp add: unbeaten_def)
      then have "find (unbeaten P (rs @ [x])) rs = None"
        by (simp add: find_None_iff)
      moreover have "unbeaten P (rs @ [x]) x"
        unfolding unbeaten_def using True noP better_irrefl by auto
      ultimately have "find (unbeaten P (rs @ [x])) (rs @ [x]) = Some x"
        by (simp add: find_append)
      with True None step show ?thesis by simp
    next
      case (Some c)
      with snoc.IH have fc: "find (unbeaten P rs) rs = Some c" by simp
      then have c: "c \<in> set rs" "unbeaten P rs c"
        by (metis find_Some_iff nth_mem)+
      show ?thesis
      proof (cases "is_better_result x c")
        case better: True
        have beats: "is_better_result x y" if "y \<in> set rs" "P y" for y
        proof -
          from that c(2) have "\<not> is_better_result y c" by (simp add: unbeaten_def)
          with better show ?thesis by (rule better_beats_unbeaten)
        qed
        have nb: "\<not> is_better_result y x" if "y \<in> set rs" "P y" for y
          using beats[OF that] by (rule better_asym)
        have "\<not> unbeaten P (rs @ [x]) z" if "z \<in> set rs" for z
        proof
          assume u: "unbeaten P (rs @ [x]) z"
          then have "P z" by (simp add: unbeaten_def)
          with that have "is_better_result x z" by (rule beats)
          moreover from u True have "\<not> is_better_result x z" by (simp add: unbeaten_def)
          ultimately show False by simp
        qed
        then have "find (unbeaten P (rs @ [x])) rs = None"
          by (simp add: find_None_iff)
        moreover have "unbeaten P (rs @ [x]) x"
          unfolding unbeaten_def using True nb better_irrefl by auto
        ultimately have "find (unbeaten P (rs @ [x])) (rs @ [x]) = Some x"
          by (simp add: find_append)
        with True Some better step show ?thesis by simp
      next
        case worse: False
        have "unbeaten P (rs @ [x]) z = unbeaten P rs z" if "z \<in> set rs" for z
        proof
          assume "unbeaten P (rs @ [x]) z"
          then show "unbeaten P rs z" by (simp add: unbeaten_def)
        next
          assume u: "unbeaten P rs z"
          with c(1) c(2) have "\<not> is_better_result c z" by (simp add: unbeaten_def)
          with worse have "\<not> is_better_result x z" by (rule better_neg_trans)
          with u show "unbeaten P (rs @ [x]) z" by (simp add: unbeaten_def)
        qed
        then have "find (unbeaten P (rs @ [x])) rs = find (unbeaten P rs) rs"
          by (rule find_cong_set)
        with fc have "find (unbeaten P (rs @ [x])) (rs @ [x]) = Some c"
          by (simp add: find_append)
        with True Some worse step show ?thesis by simp
      qed
    qed
  qed
qed


lemma same_url_same_result:
  "distinct (map url acc) \<Longrightarrow> x \<in> set acc \<Longrightarrow> e \<in> set acc \<Longrightarrow> url x = url e \<Longrightarrow> x = e"
  by (auto simp: distinct_map dest: inj_onD)

lemma replace_first_url_class:
  "distinct (map url acc) \<Longrightarrow> filter Q acc = [e] \<Longrightarrow> Q r \<Longrightarrow>
     filter Q (replace_first_url (url e) r acc) = [r]"
proof (induction acc)
  case Nil
  then show ?case by simp
next
  case (Cons x xs)
  have "e \<in> {y \<in> set (x # xs). Q y}"
    unfolding set_filter[symmetric] Cons.prems(2) by simp
  then have ein: "e \<in> set (x # xs)" and qe: "Q e" by simp_all
  show ?case
  proof (cases "url x = url e")
    case True
    with Cons.prems(1) ein have "x = e"
      using same_url_same_result[of "x # xs" x e] by simp
    with Cons.prems(2) qe have "filter Q xs = []" by simp
    with True Cons.prems(3) show ?thesis by simp
  next
    case False
    then have ne: "x \<noteq> e" by auto
    have nq: "\<not> Q x"
    proof
      assume "Q x"
      with Cons.prems(2) have "x = e" by simp
      with ne show False by simp
    qed
    with Cons.prems(2) have f: "filter Q xs = [e]" by simp
    from Cons.prems(1) have d: "distinct (map url xs)" by simp
    have "filter Q (replace_first_url (url e) r xs) = [r]"
      by (rule Cons.IH[OF d f Cons.prems(3)])
    with False nq show ?thesis by simp
  qed
qed

lemma replace_first_url_other_class:
  "distinct (map url acc) \<Longrightarrow> e \<in> set acc \<Longrightarrow> \<not> Q e \<Longrightarrow> \<not> Q r \<Longrightarrow>
     filter Q (replace_first_url (url e) r acc) = filter Q acc"
proof (induction acc)
  case Nil
  then show ?case by simp
next
  case (Cons x xs)
  show ?case
  proof (cases "url x = url e")
    case True
    with Cons.prems(1,2) have "x = e"
      using same_url_same_result[of "x # xs" x e] by simp
    with True Cons.prems(3,4) show ?thesis by simp
  next
    case False
    then have "x \<noteq> e" by auto
    with Cons.prems(2) have m: "e \<in> set xs" by simp
    from Cons.prems(1) have d: "distinct (map url xs)" by simp
    have "filter Q (replace_first_url (url e) r xs) = filter Q xs"
      by (rule Cons.IH[OF d m Cons.prems(3) Cons.prems(4)])
    with False show ?thesis by simp
  qed
qed

lemma replace_first_url_urls:
  "url ` set (replace_first_url u r acc) \<subseteq> insert (url r) (url ` set acc)"
  by (induction acc) auto

lemma replace_first_url_distinct:
  "distinct (map url acc) \<Longrightarrow> url r \<notin> url ` set acc \<Longrightarrow>
     distinct (map url (replace_first_url u r acc))"
proof (induction acc)
  case Nil
  then show ?case by simp
next
  case (Cons x xs)
  show ?case
  proof (cases "url x = u")
    case True
    with Cons.prems show ?thesis by simp
  next
    case False
    from Cons.prems have d: "distinct (map url (replace_first_url u r xs))"
      by (intro Cons.IH) simp_all
    have "url x \<notin> url ` set (replace_first_url u r xs)"
    proof
      assume "url x \<in> url ` set (replace_first_url u r xs)"
      with replace_first_url_urls[of u r xs] have "url x \<in> insert (url r) (url ` set xs)"
        by (rule subsetD)
      then have "url x = url r \<or> url x \<in> url ` set xs"
        by simp
      with Cons.prems show False by auto
    qed
    with d False show ?thesis by simp
  qed
qed


lemma remove_similar_loop_classes:
  assumes "distinct (map url (acc @ rs))"
    and "\<And>k'. filter (\<lambda>x. result_hash md5 x = k') acc
                 = (case cache k' of None \<Rightarrow> [] | Some c \<Rightarrow> [c])"
  shows "filter (\<lambda>x. result_hash md5 x = k) (fst (remove_similar_loop md5 cache acc rs))
           = (case champion (\<lambda>x. result_hash md5 x = k) (cache k) rs of
                None \<Rightarrow> [] | Some c \<Rightarrow> [c])"
  using assms
proof (induction rs arbitrary: cache acc)
  case Nil
  then show ?case by simp
next
  case (Cons r rs)
  define h where "h = result_hash md5 r"
  have hc: "calculate_content_hash md5 (content r) = h"
    by (simp add: h_def result_hash_def)
  note inv = Cons.prems(2)
  from Cons.prems(1) have dacc: "distinct (map url acc)"
    and drs: "distinct (map url rs)"
    and fresh: "url r \<notin> url ` set acc"
    and fresh': "url r \<notin> url ` set rs"
    and disj: "url ` set acc \<inter> url ` set rs = {}"
    by auto
  show ?case
  proof (cases "cache h")
    case None
    have e: "remove_similar_loop md5 cache acc (r # rs)
        = remove_similar_loop md5 (cache(h \<mapsto> r)) (acc @ [r]) rs"
      using None by (simp add: hc)
    have d': "distinct (map url ((acc @ [r]) @ rs))"
      using Cons.prems(1) by auto
    have inv': "filter (\<lambda>x. result_hash md5 x = k') (acc @ [r])
                 = (case (cache(h \<mapsto> r)) k' of None \<Rightarrow> [] | Some c \<Rightarrow> [c])" for k'
    proof (cases "k' = h")
      case True
      from inv[of h] None have "filter (\<lambda>x. result_hash md5 x = h) acc = []" by simp
      with True show ?thesis by (simp add: h_def)
    next
      case False
      then have "result_hash md5 r \<noteq> k'" by (auto simp: h_def)
      with False inv[of k'] show ?thesis by simp
    qed
    have ch: "champion (\<lambda>x. result_hash md5 x = k) (cache k) (r # rs)
        = champion (\<lambda>x. result_hash md5 x = k) ((cache(h \<mapsto> r)) k) rs"
    proof (cases "k = h")
      case True
      with None show ?thesis by (simp add: h_def)
    next
      case False
      then have "result_hash md5 r \<noteq> k" by (auto simp: h_def)
      with False show ?thesis by simp
    qed
    from Cons.IH[OF d' inv'] show ?thesis unfolding e ch .
  next
    case (Some existing)
    from inv[of h] Some have fh: "filter (\<lambda>x. result_hash md5 x = h) acc = [existing]"
      by simp
    have "existing \<in> {y \<in> set acc. result_hash md5 y = h}"
      unfolding set_filter[symmetric] fh by simp
    then have ein: "existing \<in> set acc" and eh: "result_hash md5 existing = h"
      by simp_all
    show ?thesis
    proof (cases "is_better_result r existing")
      case True
      let ?acc' = "replace_first_url (url existing) r acc"
      have e: "remove_similar_loop md5 cache acc (r # rs)
        = remove_similar_loop md5 (cache(h \<mapsto> r)) ?acc' rs"
        using Some True by (simp add: hc)
      have da: "distinct (map url ?acc')"
        using dacc fresh by (rule replace_first_url_distinct)
      have "url ` set ?acc' \<inter> url ` set rs = {}"
      proof -
        have "url ` set ?acc' \<subseteq> insert (url r) (url ` set acc)"
          by (rule replace_first_url_urls)
        then have "url ` set ?acc' \<inter> url ` set rs
            \<subseteq> insert (url r) (url ` set acc) \<inter> url ` set rs"
          by (rule Int_mono) simp
        also have "\<dots> = {}" using fresh' disj by simp
        finally show ?thesis by simp
      qed
      with da drs have d': "distinct (map url (?acc' @ rs))" by simp
      have inv': "filter (\<lambda>x. result_hash md5 x = k') ?acc'
                 = (case (cache(h \<mapsto> r)) k' of None \<Rightarrow> [] | Some c \<Rightarrow> [c])" for k'
      proof (cases "k' = h")
        case True
        have "filter (\<lambda>x. result_hash md5 x = h) ?acc' = [r]"
          using dacc fh by (rule replace_first_url_class) (simp add: h_def)
        with True show ?thesis by simp
      next
        case False
        have "filter (\<lambda>x. result_hash md5 x = k') ?acc'
            = filter (\<lambda>x. result_hash md5 x = k') acc"
          using dacc ein
        proof (rule replace_first_url_other_class)
          show "\<not> result_hash md5 existing = k'" using False eh by simp
          show "\<not> result_hash md5 r = k'" using False by (simp add: h_def)
        qed
        with False inv[of k'] show ?thesis by simp
      qed
      have ch: "champion (\<lambda>x. result_hash md5 x = k) (cache k) (r # rs)
          = champion (\<lambda>x. result_hash md5 x = k) ((cache(h \<mapsto> r)) k) rs"
      proof (cases "k = h")
        case k: True
        with Some True show ?thesis by (simp add: h_def)
      next
        case False
        then have "result_hash md5 r \<noteq> k" by (auto simp: h_def)
        with False show ?thesis by simp
      qed
      from Cons.IH[OF d' inv'] show ?thesis unfolding e ch .
    next
      case False
      have e: "remove_similar_loop md5 cache acc (r # rs)
        = remove_similar_loop md5 cache acc rs"
        using Some False by (simp add: hc)
      have d': "distinct (map url (acc @ rs))"
        using dacc drs disj by simp
      have ch: "champion (\<lambda>x. result_hash md5 x = k) (cache k) (r # rs)
          = champion (\<lambda>x. result_hash md5 x = k) (cache k) rs"
      proof (cases "k = h")
        case k: True
        with Some False show ?thesis by (simp add: h_def)
      next
        case k: False
        then have "result_hash md5 r \<noteq> k" by (auto simp: h_def)
        then show ?thesis by simp
      qed
      from Cons.IH[OF d' inv] show ?thesis unfolding e ch .
    qed
  qed
qed


lemma class_representative_unbeaten:
  "class_representative md5 rs k = find (unbeaten (\<lambda>x. result_hash md5 x = k) rs) rs"
proof -
  have "unbeaten (\<lambda>x. result_hash md5 x = k) rs
      = (\<lambda>x. result_hash md5 x = k
              \<and> list_all (\<lambda>y. result_hash md5 y = k \<longrightarrow> \<not> spec_beats y x) rs)"
    by (rule ext) (simp add: unbeaten_def list_all_iff is_better_result_spec)
  then show ?thesis by (simp add: class_representative_def)
qed

lemma class_representative_champion:
  "class_representative md5 rs k = champion (\<lambda>x. result_hash md5 x = k) None rs"
  by (simp add: class_representative_unbeaten champion_is_first_unbeaten)

lemma class_representative_None:
  "class_representative md5 rs k = None \<longleftrightarrow> (\<forall>x \<in> set rs. result_hash md5 x \<noteq> k)"
  by (simp add: class_representative_champion champion_None_iff)

lemma class_representative_Some:
  assumes "class_representative md5 rs k = Some c"
  shows "c \<in> set rs" and "result_hash md5 c = k"
    and "\<And>y. y \<in> set rs \<Longrightarrow> result_hash md5 y = k \<Longrightarrow> \<not> is_better_result y c"
proof -
  from assms have f: "find (unbeaten (\<lambda>x. result_hash md5 x = k) rs) rs = Some c"
    by (simp add: class_representative_unbeaten)
  then obtain i where "i < length rs" and u: "unbeaten (\<lambda>x. result_hash md5 x = k) rs (rs ! i)"
    and "c = rs ! i"
    unfolding find_Some_iff by blast
  then show "c \<in> set rs" by simp
  from u \<open>c = rs ! i\<close> show "result_hash md5 c = k" by (simp add: unbeaten_def)
  from u \<open>c = rs ! i\<close>
  show "\<And>y. y \<in> set rs \<Longrightarrow> result_hash md5 y = k \<Longrightarrow> \<not> is_better_result y c"
    by (simp add: unbeaten_def)
qed

lemma collapse_classes:
  assumes "distinct (map url rs)"
  shows "filter (\<lambda>x. result_hash md5 x = k) (fst (remove_similar_responses md5 Map.empty rs))
           = (case class_representative md5 rs k of None \<Rightarrow> [] | Some c \<Rightarrow> [c])"
proof -
  have d: "distinct (map url ([] @ rs))" using assms by simp
  have i: "filter (\<lambda>x. result_hash md5 x = k') []
            = (case Map.empty k' of None \<Rightarrow> [] | Some c \<Rightarrow> [c])" for k'
    by simp
  from remove_similar_loop_classes[OF d i, of k] show ?thesis
    by (simp add: remove_similar_responses_def class_representative_champion)
qed

lemma representatives_same_status:
  assumes "set rs' = set rs"
  shows "map_option status_code (class_representative md5 rs' k)
           = map_option status_code (class_representative md5 rs k)"
proof (cases "class_representative md5 rs k")
  case None
  then have "class_representative md5 rs' k = None"
    using assms by (simp add: class_representative_None)
  with None show ?thesis by simp
next
  case (Some c)
  then have "class_representative md5 rs' k \<noteq> None"
    using assms class_representative_None[of md5 rs k] class_representative_None[of md5 rs' k]
    by simp
  then obtain c' where s': "class_representative md5 rs' k = Some c'" by blast
  note c = class_representative_Some[OF Some]
  note c' = class_representative_Some[OF s']
  from c'(1) assms have "c' \<in> set rs" by simp
  then have 1: "\<not> is_better_result c' c" using c'(2) by (rule c(3))
  from c(1) assms have "c \<in> set rs'" by simp
  then have 2: "\<not> is_better_result c c'" using c(2) by (rule c'(3))
  from 2 1 have "status_code c = status_code c'" by (rule unbeaten_same_status)
  with Some s' show ?thesis by simp
qed

lemma representatives_same:
  assumes "set rs' = set rs"
    and u: "\<And>x y. x \<in> set rs \<Longrightarrow> y \<in> set rs \<Longrightarrow> result_hash md5 x = k
               \<Longrightarrow> result_hash md5 y = k \<Longrightarrow> status_code x = status_code y \<Longrightarrow> x = y"
  shows "class_representative md5 rs' k = class_representative md5 rs k"
proof (cases "class_representative md5 rs k")
  case None
  then have "class_representative md5 rs' k = None"
    using assms(1) by (simp add: class_representative_None)
  with None show ?thesis by simp
next
  case (Some c)
  then have "class_representative md5 rs' k \<noteq> None"
    using assms(1) class_representative_None[of md5 rs k] class_representative_None[of md5 rs' k]
    by simp
  then obtain c' where s': "class_representative md5 rs' k = Some c'" by blast
  note c = class_representative_Some[OF Some]
  note c' = class_representative_Some[OF s']
  from representatives_same_status[OF assms(1), of md5 k] Some s'
  have "status_code c' = status_code c" by simp
  moreover from c'(1) assms(1) have "c' \<in> set rs" by simp
  moreover note c(1)
  ultimately have "c' = c" using u[OF _ _ c'(2) c(2)] by blast
  with Some s' show ?thesis by simp
qed


text \<open>
  C2, as stated, fails: on a tie the earlier-seen result is kept, so two results with the
  same body and the same status survive according to the order of submission.  (Equal
  bodies have equal hashes under any digest; the identity stands for it here.)
\<close>

theorem collapse_order_counterexample:
  "mset [res ''/b'' 200 50 ''same'', res ''/a'' 200 50 ''same'']
     = mset [res ''/a'' 200 50 ''same'', res ''/b'' 200 50 ''same'']
   \<and> fst (remove_similar_responses (\<lambda>s. s) Map.empty
            [res ''/a'' 200 50 ''same'', res ''/b'' 200 50 ''same''])
       = [res ''/a'' 200 50 ''same'']
   \<and> fst (remove_similar_responses (\<lambda>s. s) Map.empty
            [res ''/b'' 200 50 ''same'', res ''/a'' 200 50 ''same''])
       = [res ''/b'' 200 50 ''same'']"
  by (simp add: remove_similar_responses_def calculate_content_hash_def is_better_result_def
      res_def Let_def)

text \<open>
  The replacement in \<open>unique_results\<close> looks the cached result up by its url, not by
  identity: when another surviving result has the same url (with another status), that
  one is overwritten instead.  Here the class of body \<open>x\<close> ends with two results and
  the class of body \<open>y\<close> with none.  The theorem below is therefore about batches
  with pairwise distinct urls.
\<close>

lemma collapse_url_clash_example:
  "fst (remove_similar_responses (\<lambda>s. s) Map.empty
          [res ''/u'' 301 50 ''y'', res ''/u'' 403 50 ''x'', res ''/v'' 200 50 ''x''])
     = [res ''/v'' 200 50 ''x'', res ''/u'' 403 50 ''x'']"
  by (simp add: remove_similar_responses_def calculate_content_hash_def is_better_result_def
      res_def lower_def lower_char_def is_space_def Let_def)


lemma remove_duplicates_loop_distinct:
  "distinct (map dedup_key rs) \<Longrightarrow> (\<forall>x \<in> set rs. dedup_key x \<notin> seen) \<Longrightarrow>
   remove_duplicates_loop seen acc rs = acc @ rs"
proof (induction rs arbitrary: seen acc)
  case Nil
  show ?case by simp
next
  case (Cons r rs)
  from Cons.prems have d: "distinct (map dedup_key rs)" and k: "dedup_key r \<notin> seen"
    and i: "dedup_key r \<notin> dedup_key ` set rs" and o: "\<forall>x \<in> set rs. dedup_key x \<notin> seen"
    by simp_all
  have n: "\<forall>x \<in> set rs. dedup_key x \<notin> insert (dedup_key r) seen"
  proof
    fix x
    assume x: "x \<in> set rs"
    then have "dedup_key x \<in> dedup_key ` set rs" by (rule imageI)
    with i have "dedup_key x \<noteq> dedup_key r" by metis
    with o x show "dedup_key x \<notin> insert (dedup_key r) seen" by simp
  qed
  from Cons.IH[OF d n, of "acc @ [r]"] k show ?case by (simp add: Let_def)
qed

lemma remove_duplicates_distinct_urls:
  assumes "distinct (map url rs)"
  shows "remove_duplicates rs = rs"
proof -
  from assms have "distinct rs" and i: "inj_on url (set rs)" by (simp_all add: distinct_map)
  have "inj_on dedup_key (set rs)"
  proof (rule inj_onI)
    fix a b
    assume "a \<in> set rs" "b \<in> set rs" "dedup_key a = dedup_key b"
    then show "a = b" using i by (simp add: dedup_key_inj inj_on_def)
  qed
  with \<open>distinct rs\<close> have "distinct (map dedup_key rs)" by (simp add: distinct_map)
  from remove_duplicates_loop_distinct[OF this, of "{}" "[]"] show ?thesis
    by (simp add: remove_duplicates_def)
qed

text \<open>
  In the whole pipeline the classes are formed after the acceptance filter: with the
  default include-list a 201 is rejected before it can beat the 403 of its class.
\<close>

lemma pipeline_classes_example:
  "fst (filter_results (\<lambda>p s. False) (\<lambda>s. s) default_config Map.empty
          [res ''/a'' 201 50 ''x'', res ''/b'' 403 50 ''x''])
     = [res ''/b'' 403 50 ''x'']"
  by (simp add: filter_results_def is_interesting_def is_false_positive_def
      false_positive_patterns_def default_config_def remove_duplicates_def
      remove_similar_responses_def calculate_content_hash_def res_def Let_def
      format_size_def)

text \<open>
  C2 (amended): for every list of results with pairwise distinct urls handed to the
  content-collapse stage \<open>_remove_similar_responses\<close> of a filter whose response cache
  is empty, each content-equivalence class (results whose bodies hash equal after
  lower-casing and deleting all whitespace) retains exactly one representative: the
  earliest-submitted result of the class that no result of the class beats, where a
  status-200 result beats any non-200 result and among non-200 results the numerically
  lower status code wins; a tie on equal status keeps the earlier-seen result.  For any
  two submission orders of the same list the representative of a class has the same
  status code, and it is the same result whenever no two results of the class have the
  same status code.  When the list is submitted to the whole pipeline
  \<open>filter_results\<close>, the classes are formed among the results that the acceptance
  filter accepts.
\<close>

theorem collapse_keeps_first_best:
  "distinct (map url rs) \<Longrightarrow>
     filter (\<lambda>x. result_hash md5 x = k) (fst (remove_similar_responses md5 Map.empty rs))
        = (case class_representative md5 rs k of None \<Rightarrow> [] | Some c \<Rightarrow> [c])
   \<and> (r \<in> set rs \<longrightarrow>
        length (filter (\<lambda>x. result_hash md5 x = result_hash md5 r)
                  (fst (remove_similar_responses md5 Map.empty rs))) = 1)
   \<and> (mset rs' = mset rs \<longrightarrow>
        map status_code (filter (\<lambda>x. result_hash md5 x = k)
                           (fst (remove_similar_responses md5 Map.empty rs')))
        = map status_code (filter (\<lambda>x. result_hash md5 x = k)
                             (fst (remove_similar_responses md5 Map.empty rs))))
   \<and> (mset rs' = mset rs
        \<and> (\<forall>x \<in> set rs. \<forall>y \<in> set rs.
              result_hash md5 x = k \<and> result_hash md5 y = k \<and> status_code x = status_code y
                \<longrightarrow> x = y)
        \<longrightarrow> filter (\<lambda>x. result_hash md5 x = k)
              (fst (remove_similar_responses md5 Map.empty rs'))
            = filter (\<lambda>x. result_hash md5 x = k)
                (fst (remove_similar_responses md5 Map.empty rs)))
   \<and> filter (\<lambda>x. result_hash md5 x = k) (fst (filter_results re_search md5 cfg Map.empty rs))
        = (case class_representative md5 (filter (is_interesting re_search cfg) rs) k of
             None \<Rightarrow> [] | Some c \<Rightarrow> [c])"
proof -
  assume d: "distinct (map url rs)"
  note a = collapse_classes[OF d]
  have one: "length (filter (\<lambda>x. result_hash md5 x = result_hash md5 r)
                  (fst (remove_similar_responses md5 Map.empty rs))) = 1" if "r \<in> set rs"
  proof -
    from that have "class_representative md5 rs (result_hash md5 r) \<noteq> None"
      unfolding class_representative_None by blast
    then show ?thesis unfolding a by (auto split: option.splits)
  qed
  have d': "distinct (map url rs')" if "mset rs' = mset rs"
  proof -
    from that have "mset (map url rs') = mset (map url rs)" by simp
    with d show ?thesis by (metis mset_eq_imp_distinct_iff)
  qed
  have st: "map status_code (filter (\<lambda>x. result_hash md5 x = k)
                           (fst (remove_similar_responses md5 Map.empty rs')))
        = map status_code (filter (\<lambda>x. result_hash md5 x = k)
                             (fst (remove_similar_responses md5 Map.empty rs)))"
    if m: "mset rs' = mset rs"
  proof -
    from m have s: "set rs' = set rs" by (rule mset_eq_setD)
    from representatives_same_status[OF s, of md5 k]
    show ?thesis unfolding a collapse_classes[OF d'[OF m]]
      by (cases "class_representative md5 rs k"; cases "class_representative md5 rs' k")
        simp_all
  qed
  have same: "filter (\<lambda>x. result_hash md5 x = k)
              (fst (remove_similar_responses md5 Map.empty rs'))
            = filter (\<lambda>x. result_hash md5 x = k)
                (fst (remove_similar_responses md5 Map.empty rs))"
    if m: "mset rs' = mset rs"
      and u: "\<forall>x \<in> set rs. \<forall>y \<in> set rs.
              result_hash md5 x = k \<and> result_hash md5 y = k \<and> status_code x = status_code y
                \<longrightarrow> x = y"
  proof -
    from m have s: "set rs' = set rs" by (rule mset_eq_setD)
    have "class_representative md5 rs' k = class_representative md5 rs k"
      using s
    proof (rule representatives_same)
      fix x y
      assume "x \<in> set rs" "y \<in> set rs" "result_hash md5 x = k" "result_hash md5 y = k"
        "status_code x = status_code y"
      with u show "x = y" by blast
    qed
    then show ?thesis unfolding a collapse_classes[OF d'[OF m]] by simp
  qed
  have pipe: "filter (\<lambda>x. result_hash md5 x = k)
                (fst (filter_results re_search md5 cfg Map.empty rs))
        = (case class_representative md5 (filter (is_interesting re_search cfg) rs) k of
             None \<Rightarrow> [] | Some c \<Rightarrow> [c])"
  proof -
    from d have da: "distinct (map url (filter (is_interesting re_search cfg) rs))"
      by (rule distinct_map_filter)
    from collapse_classes[OF da, of md5 k] remove_duplicates_distinct_urls[OF da]
    show ?thesis by (simp add: filter_results_def Let_def)
  qed
  from a one st same pipe show ?thesis by blast
qed

theorem collapse_keeps_first_best_witness:
  "distinct (map url [res ''/a'' 403 50 ''not  here'', res ''/b'' 200 50 ''Not Here''])
   \<and> mset [res ''/b'' 200 50 ''Not Here'', res ''/a'' 403 50 ''not  here'']
       = mset [res ''/a'' 403 50 ''not  here'', res ''/b'' 200 50 ''Not Here'']
   \<and> filter (\<lambda>x. result_hash (\<lambda>s. s) x = ''nothere'')
         (fst (remove_similar_responses (\<lambda>s. s) Map.empty
                 [res ''/a'' 403 50 ''not  here'', res ''/b'' 200 50 ''Not Here'']))
       = [res ''/b'' 200 50 ''Not Here'']
   \<and> filter (\<lambda>x. result_hash (\<lambda>s. s) x = ''nothere'')
         (fst (remove_similar_responses (\<lambda>s. s) Map.empty
                 [res ''/b'' 200 50 ''Not Here'', res ''/a'' 403 50 ''not  here'']))
       = [res ''/b'' 200 50 ''Not Here'']"
proof -
  let ?rs = "[res ''/a'' 403 50 ''not  here'', res ''/b'' 200 50 ''Not Here'']"
  let ?rs' = "[res ''/b'' 200 50 ''Not Here'', res ''/a'' 403 50 ''not  here'']"
  have d: "distinct (map url ?rs)" by (simp add: res_def)
  have m: "mset ?rs' = mset ?rs" by simp
  have u: "\<forall>x \<in> set ?rs. \<forall>y \<in> set ?rs.
      result_hash (\<lambda>s. s) x = ''nothere'' \<and> result_hash (\<lambda>s. s) y = ''nothere''
        \<and> status_code x = status_code y \<longrightarrow> x = y"
    by (simp add: res_def)
  have c: "class_representative (\<lambda>s. s) ?rs ''nothere'' = Some (res ''/b'' 200 50 ''Not Here'')"
    by (simp add: class_representative_def result_hash_def calculate_content_hash_def
        lower_def lower_char_def is_space_def spec_beats_def res_def Let_def char_of_def
        bit_Suc_0_iff)
  note t = collapse_keeps_first_best
    [OF d, of "\<lambda>s. s" "''nothere''" "res ''/a'' 403 50 ''not  here''" ?rs']
  from t[THEN conjunct1] have 1: "filter (\<lambda>x. result_hash (\<lambda>s. s) x = ''nothere'')
         (fst (remove_similar_responses (\<lambda>s. s) Map.empty ?rs))
       = [res ''/b'' 200 50 ''Not Here'']"
    unfolding c by simp
  from t[THEN conjunct2, THEN conjunct2, THEN conjunct2, THEN conjunct1]
  have "mset ?rs' = mset ?rs \<and> (\<forall>x \<in> set ?rs. \<forall>y \<in> set ?rs.
      result_hash (\<lambda>s. s) x = ''nothere'' \<and> result_hash (\<lambda>s. s) y = ''nothere''
        \<and> status_code x = status_code y \<longrightarrow> x = y)
     \<longrightarrow> filter (\<lambda>x. result_hash (\<lambda>s. s) x = ''nothere'')
         (fst (remove_similar_responses (\<lambda>s. s) Map.empty ?rs'))
       = filter (\<lambda>x. result_hash (\<lambda>s. s) x = ''nothere'')
         (fst (remove_similar_responses (\<lambda>s. s) Map.empty ?rs))" .
  with m u have 2: "filter (\<lambda>x. result_hash (\<lambda>s. s) x = ''nothere'')
         (fst (remove_similar_responses (\<lambda>s. s) Map.empty ?rs'))
       = filter (\<lambda>x. result_hash (\<lambda>s. s) x = ''nothere'')
         (fst (remove_similar_responses (\<lambda>s. s) Map.empty ?rs))"
    by (elim impE) (rule conjI)
  from d have 0: "distinct (map url ?rs)" .
  show ?thesis
    apply (intro conjI)
    apply (rule 0)
    apply (rule m)
    apply (rule 1)
    apply (simp only: 2 1)
    done
qed

section \<open>The scheduling loop\<close>


lemma enqueue_new_fields:
  "futures (enqueue_new d us s) = futures s \<and> submitted (enqueue_new d us s) = submitted s
   \<and> results_acc (enqueue_new d us s) = results_acc s
   \<and> error_log (enqueue_new d us s) = error_log s"
  by (induction us arbitrary: s) simp_all

lemma enqueue_new_queue:
  "\<exists>new. scan_queue (enqueue_new d us s) = scan_queue s @ new \<and> (\<forall>e \<in> set new. snd e = d + 1)"
proof (induction us arbitrary: s)
  case Nil
  show ?case by simp
next
  case (Cons u us)
  let ?s' = "if u \<notin> visited_urls s
        then s\<lparr>scan_queue := scan_queue s @ [(u, d + 1)],
               visited_urls := insert u (visited_urls s)\<rparr>
        else s"
  from Cons.IH[of ?s'] obtain new where
    n: "scan_queue (enqueue_new d us ?s') = scan_queue ?s' @ new" "\<forall>e \<in> set new. snd e = d + 1"
    by blast
  show ?case
  proof (cases "u \<in> visited_urls s")
    case True
    with n show ?thesis by auto
  next
    case False
    with n have "scan_queue (enqueue_new d (u # us) s) = scan_queue s @ ((u, d + 1) # new)"
      by simp
    moreover from n(2) have "\<forall>e \<in> set ((u, d + 1) # new). snd e = d + 1" by simp
    ultimately show ?thesis by blast
  qed
qed

lemma recurse_results_fields:
  "futures (recurse_results cfg lib u d rs s) = futures s
   \<and> submitted (recurse_results cfg lib u d rs s) = submitted s"
  by (induction rs arbitrary: s) (simp_all add: enqueue_new_fields split: option.splits)

lemma recurse_results_queue:
  "\<exists>new. scan_queue (recurse_results cfg lib u d rs s) = scan_queue s @ new
         \<and> (\<forall>e \<in> set new. snd e = d + 1)"
proof (induction rs arbitrary: s)
  case Nil
  show ?case by simp
next
  case (Cons r rs)
  show ?case
  proof (cases "should_recurse cfg r")
    case False
    with Cons.IH[of s] show ?thesis by simp
  next
    case True
    show ?thesis
    proof (cases "extract_new_urls lib r")
      case None
      with True show ?thesis by simp
    next
      case (Some us)
      from enqueue_new_queue[of d us s] obtain n1 where
        1: "scan_queue (enqueue_new d us s) = scan_queue s @ n1" "\<forall>e \<in> set n1. snd e = d + 1"
        by blast
      from Cons.IH[of "enqueue_new d us s"] obtain n2 where
        2: "scan_queue (recurse_results cfg lib u d rs (enqueue_new d us s))
              = scan_queue (enqueue_new d us s) @ n2" "\<forall>e \<in> set n2. snd e = d + 1"
        by blast
      from 1 2 True Some
      have "scan_queue (recurse_results cfg lib u d (r # rs) s) = scan_queue s @ (n1 @ n2)"
        by simp
      moreover from 1(2) 2(2) have "\<forall>e \<in> set (n1 @ n2). snd e = d + 1" by auto
      ultimately show ?thesis by blast
    qed
  qed
qed

lemma process_done_fields:
  "futures (process_done cfg lib i out s) = take i (futures s) @ drop (Suc i) (futures s)
   \<and> submitted (process_done cfg lib i out s) = submitted s"
  by (cases out; cases "futures s ! i")
     (simp_all add: process_done_def Let_def recurse_results_fields)

lemma process_done_queue:
  "\<exists>new. scan_queue (process_done cfg lib i out s) = scan_queue s @ new
         \<and> (\<forall>e \<in> set new. snd e = snd (futures s ! i) + 1
                \<and> recursive cfg \<and> snd (futures s ! i) < max_depth cfg)"
proof (cases "futures s ! i")
  case (Pair u d)
  show ?thesis
  proof (cases out)
    case Raised
    with Pair show ?thesis by (simp add: process_done_def)
  next
    case (Returned rs)
    show ?thesis
    proof (cases "recursive cfg \<and> d < max_depth cfg")
      case False
      with Pair Returned show ?thesis by (auto simp: process_done_def Let_def)
    next
      case True
      let ?s2 = "s\<lparr>futures := take i (futures s) @ drop (Suc i) (futures s),
                   results_acc := results_acc s @ rs\<rparr>"
      from recurse_results_queue[of cfg lib u d rs ?s2] obtain new where
        "scan_queue (recurse_results cfg lib u d rs ?s2) = scan_queue s @ new"
        "\<forall>e \<in> set new. snd e = d + 1"
        by auto
      with Pair Returned True show ?thesis by (auto simp: process_done_def Let_def)
    qed
  qed
qed


lemma state_ok_init: "state_ok cfg target (init_state visited target)"
  by (simp add: state_ok_def init_state_def entry_ok_def)

lemma state_ok_submit:
  assumes ok: "state_ok cfg target s" and q: "scan_queue s = (u, d) # q"
  shows "state_ok cfg target
           (s\<lparr>scan_queue := q, futures := futures s @ [(u, d)],
              submitted := submitted s @ [(u, d)]\<rparr>)"
proof -
  from ok q have e: "entry_ok cfg target (u, d)" by (simp add: state_ok_def)
  from ok q have hdq: "submitted s = [] \<Longrightarrow> (u, d) = (normalize_target target, 0)"
    by (simp add: state_ok_def)
  from ok have hds: "submitted s \<noteq> [] \<Longrightarrow> hd (submitted s) = (normalize_target target, 0)"
    by (simp add: state_ok_def)
  have "hd (submitted s @ [(u, d)]) = (normalize_target target, 0)"
    using hdq hds by (cases "submitted s") simp_all
  with ok q e show ?thesis by (auto simp: state_ok_def)
qed

lemma state_ok_collect:
  assumes ok: "state_ok cfg target s" and i: "i < length (futures s)"
  shows "state_ok cfg target (process_done cfg lib i out s)"
proof -
  let ?s' = "process_done cfg lib i out s"
  from process_done_fields[of cfg lib i out s]
  have f: "futures ?s' = take i (futures s) @ drop (Suc i) (futures s)"
    and sub: "submitted ?s' = submitted s" by simp_all
  from process_done_queue[of cfg lib i out s] obtain new where
    q: "scan_queue ?s' = scan_queue s @ new"
    and n: "\<forall>e \<in> set new. snd e = snd (futures s ! i) + 1
                \<and> recursive cfg \<and> snd (futures s ! i) < max_depth cfg"
    by blast
  from i have fin: "futures s ! i \<in> set (futures s)" by simp
  with ok have pos: "0 \<le> snd (futures s ! i)" by (simp add: state_ok_def entry_ok_def)
  have fsub: "set (futures ?s') \<subseteq> set (futures s)"
    unfolding f using set_take_subset[of i "futures s"] set_drop_subset[of "Suc i" "futures s"]
    by auto
  have nonempty: "submitted s \<noteq> []"
  proof
    assume "submitted s = []"
    with ok have "set (futures s) \<subseteq> {}" by (simp add: state_ok_def)
    with fin show False by simp
  qed
  have newok: "entry_ok cfg target e" if "e \<in> set new" for e
    using n that pos by (auto simp: entry_ok_def)
  have "\<forall>e \<in> set (scan_queue ?s') \<union> set (futures ?s') \<union> set (submitted ?s').
          entry_ok cfg target e"
    using ok newok fsub unfolding q sub state_ok_def by auto
  moreover have "set (futures ?s') \<subseteq> set (submitted ?s')"
    using ok fsub unfolding sub state_ok_def by blast
  moreover have "hd (submitted ?s') = (normalize_target target, 0)"
    using ok nonempty unfolding sub state_ok_def by simp
  ultimately show ?thesis using nonempty unfolding state_ok_def sub by simp
qed

lemma state_ok_step: "scan_step cfg lib s s' \<Longrightarrow> state_ok cfg target s \<Longrightarrow> state_ok cfg target s'"
  by (induction rule: scan_step.induct) (simp_all add: state_ok_submit state_ok_collect)

lemma reachable_state_ok: "reachable cfg lib visited target s \<Longrightarrow> state_ok cfg target s"
  unfolding reachable_def
  by (induction rule: rtranclp_induct) (simp_all add: state_ok_init state_ok_step)


lemma reachable_init: "reachable cfg lib visited target (init_state visited target)"
  by (simp add: reachable_def)

lemma reachable_step:
  "reachable cfg lib visited target s \<Longrightarrow> scan_step cfg lib s s' \<Longrightarrow>
     reachable cfg lib visited target s'"
  unfolding reachable_def by (rule rtranclp.rtrancl_into_rtrancl)

lemma reachable_submit:
  "reachable cfg lib visited target (st ((u, d) # q) f rs v sub) \<Longrightarrow>
   int (length f) < threads cfg \<Longrightarrow>
   reachable cfg lib visited target (st q (f @ [(u, d)]) rs v (sub @ [(u, d)]))"
proof -
  assume r: "reachable cfg lib visited target (st ((u, d) # q) f rs v sub)"
    and t: "int (length f) < threads cfg"
  have "scan_step cfg lib (st ((u, d) # q) f rs v sub)
          ((st ((u, d) # q) f rs v sub)
             \<lparr>scan_queue := q, futures := futures (st ((u, d) # q) f rs v sub) @ [(u, d)],
              submitted := submitted (st ((u, d) # q) f rs v sub) @ [(u, d)]\<rparr>)"
    by (rule scan_step.submit) (simp_all add: st_def t)
  then have "scan_step cfg lib (st ((u, d) # q) f rs v sub)
               (st q (f @ [(u, d)]) rs v (sub @ [(u, d)]))"
    by (simp add: st_def)
  with r show ?thesis by (rule reachable_step)
qed

lemma reachable_collect:
  "reachable cfg lib visited target s \<Longrightarrow> i < length (futures s) \<Longrightarrow>
   process_done cfg lib i out s = s' \<Longrightarrow> reachable cfg lib visited target s'"
  using reachable_step scan_step.collect by blast

lemma init_state_st:
  "init_state v ''https://a/'' = st [(''https://a/'', 0)] [] [] v []"
  by (simp add: init_state_def st_def normalize_target_def)

lemma extract_sub:
  "extract_new_urls simple_urllib (page ''https://a/'' 200 ''/sub'') = Some [''https://a/sub'']"
  by (simp add: extract_new_urls_def findall_href_def page_def res_def match_href_def
      lower_def lower_char_def is_quote_def simple_urllib_def simple_urlparse_def Let_def
      eval_nat_numeral)

lemma extract_home:
  "extract_new_urls simple_urllib (page ''https://a/admin/'' 200 ''/'') = Some [''https://a/'']"
  by (simp add: extract_new_urls_def findall_href_def page_def res_def match_href_def
      lower_def lower_char_def is_quote_def simple_urllib_def simple_urlparse_def Let_def
      eval_nat_numeral)


lemma page_status: "status_code (page u s p) = s"
  by (simp add: page_def res_def)

lemma scenario_C_first:
  "process_done cfgC simple_urllib 0 (Returned [page ''https://a/'' 200 ''/sub''])
     (st [] [(''https://a/'', 0)] [] {} [(''https://a/'', 0)])
   = st [(''https://a/sub'', 1)] [] [page ''https://a/'' 200 ''/sub''] {''https://a/sub''}
       [(''https://a/'', 0)]"
  by (simp add: process_done_def st_def cfgC_def default_config_def should_recurse_def
      extract_sub page_status)

lemma scenario_C_second:
  "process_done cfgC simple_urllib 0 (Returned [page ''https://a/sub'' 200 ''/deep''])
     (st [] [(''https://a/sub'', 1)] [page ''https://a/'' 200 ''/sub''] {''https://a/sub''}
        [(''https://a/'', 0), (''https://a/sub'', 1)])
   = st [] [] [page ''https://a/'' 200 ''/sub'', page ''https://a/sub'' 200 ''/deep'']
       {''https://a/sub''} [(''https://a/'', 0), (''https://a/sub'', 1)]"
  by (simp add: process_done_def st_def cfgC_def default_config_def)

lemma scenario_C_reachable:
  "reachable cfgC simple_urllib {} ''https://a/''
     (st [] [] [page ''https://a/'' 200 ''/sub'', page ''https://a/sub'' 200 ''/deep'']
        {''https://a/sub''} [(''https://a/'', 0), (''https://a/sub'', 1)])"
proof -
  have t: "int (length ([] :: (string \<times> int) list)) < threads cfgC"
    by (simp add: cfgC_def default_config_def)
  have "reachable cfgC simple_urllib {} ''https://a/'' (st [(''https://a/'', 0)] [] [] {} [])"
    using reachable_init[of cfgC simple_urllib "{}" "''https://a/''"]
    by (simp only: init_state_st)
  from reachable_submit[OF this t]
  have "reachable cfgC simple_urllib {} ''https://a/''
          (st [] [(''https://a/'', 0)] [] {} [(''https://a/'', 0)])"
    by simp
  then have "reachable cfgC simple_urllib {} ''https://a/''
          (st [(''https://a/sub'', 1)] [] [page ''https://a/'' 200 ''/sub''] {''https://a/sub''}
             [(''https://a/'', 0)])"
    by (rule reachable_collect[where i = 0, OF _ _ scenario_C_first]) (simp add: st_def)
  from reachable_submit[OF this t]
  have "reachable cfgC simple_urllib {} ''https://a/''
          (st [] [(''https://a/sub'', 1)] [page ''https://a/'' 200 ''/sub''] {''https://a/sub''}
             [(''https://a/'', 0), (''https://a/sub'', 1)])"
    by simp
  then show ?thesis
    by (rule reachable_collect[where i = 0, OF _ _ scenario_C_second]) (simp add: st_def)
qed

lemma seed_twice_collect:
  "process_done cfgR simple_urllib 0 (Returned [page ''https://a/admin/'' 200 ''/''])
     (st [] [(''https://a/'', 0)] [] {} [(''https://a/'', 0)])
   = st [(''https://a/'', 1)] [] [page ''https://a/admin/'' 200 ''/''] {''https://a/''}
       [(''https://a/'', 0)]"
  by (simp add: process_done_def st_def cfgR_def default_config_def should_recurse_def
      extract_home page_status)

text \<open>
  C1 asks that no url is scheduled twice.  The recursion path marks every url it queues
  in \<open>visited_urls\<close>; the seeding of the queue with the target does not.  So a link
  back to the target is queued again: the scan of \<open>https://a/\<close> returns a page of
  the site that links to \<open>/\<close>, and \<open>https://a/\<close> is submitted a second time, at
  depth 1.
\<close>

theorem seed_scheduled_twice:
  "reachable cfgR simple_urllib {} ''https://a/''
     (st [] [(''https://a/'', 1)] [page ''https://a/admin/'' 200 ''/''] {''https://a/''}
        [(''https://a/'', 0), (''https://a/'', 1)])
   \<and> map fst (submitted
        (st [] [(''https://a/'', 1)] [page ''https://a/admin/'' 200 ''/''] {''https://a/''}
           [(''https://a/'', 0), (''https://a/'', 1)]))
       = [''https://a/'', ''https://a/'']"
proof -
  have t: "int (length ([] :: (string \<times> int) list)) < threads cfgR"
    by (simp add: cfgR_def default_config_def)
  have "reachable cfgR simple_urllib {} ''https://a/'' (st [(''https://a/'', 0)] [] [] {} [])"
    using reachable_init[of cfgR simple_urllib "{}" "''https://a/''"]
    by (simp only: init_state_st)
  from reachable_submit[OF this t]
  have "reachable cfgR simple_urllib {} ''https://a/''
          (st [] [(''https://a/'', 0)] [] {} [(''https://a/'', 0)])"
    by simp
  then have "reachable cfgR simple_urllib {} ''https://a/''
          (st [(''https://a/'', 1)] [] [page ''https://a/admin/'' 200 ''/''] {''https://a/''}
             [(''https://a/'', 0)])"
    by (rule reachable_collect[where i = 0, OF _ _ seed_twice_collect]) (simp add: st_def)
  from reachable_submit[OF this t]
  have "reachable cfgR simple_urllib {} ''https://a/''
          (st [] [(''https://a/'', 1)] [page ''https://a/admin/'' 200 ''/''] {''https://a/''}
             [(''https://a/'', 0), (''https://a/'', 1)])"
    by simp
  then show ?thesis by (simp add: st_def)
qed

text \<open>
  C6, as stated, fails for a negative maximum depth: the target itself is always
  scanned, at depth 0.
\<close>

theorem negative_depth_counterexample:
  "reachable cfgNeg simple_urllib {} ''https://a/''
     (st [] [(''https://a/'', 0)] [] {} [(''https://a/'', 0)])
   \<and> recursive cfgNeg
   \<and> (''https://a/'', 0) \<in> set (submitted (st [] [(''https://a/'', 0)] [] {} [(''https://a/'', 0)]))
   \<and> (0 :: int) > max_depth cfgNeg"
proof -
  have t: "int (length ([] :: (string \<times> int) list)) < threads cfgNeg"
    by (simp add: cfgNeg_def default_config_def)
  have "reachable cfgNeg simple_urllib {} ''https://a/'' (st [(''https://a/'', 0)] [] [] {} [])"
    using reachable_init[of cfgNeg simple_urllib "{}" "''https://a/''"]
    by (simp only: init_state_st)
  from reachable_submit[OF this t]
  have "reachable cfgNeg simple_urllib {} ''https://a/''
          (st [] [(''https://a/'', 0)] [] {} [(''https://a/'', 0)])"
    by simp
  then show ?thesis by (simp add: st_def cfgNeg_def default_config_def)
qed

text \<open>
  C6 (amended): for every scan with a maximum depth \<open>d\<close> that is not negative, no scan
  of a depth greater than \<open>d\<close> is ever submitted, in any state the scheduling loop can
  reach.  Collecting a finished scan of depth \<open>k\<close> appends to the queue only entries of
  depth \<open>k + 1\<close>, and none unless the scan is recursive and \<open>k < d\<close>.  (Whatever
  \<open>d\<close> is, a submitted scan of a greater depth can only be the target at depth 0.)
  With maximum depth 1 the link found on the depth-0 page is scheduled at depth 1 and the
  link on that page is not scheduled (lemmas \<open>scenario_C_first\<close>,
  \<open>scenario_C_second\<close>).
\<close>

theorem depth_bound:
  "reachable cfg lib visited target s \<Longrightarrow>
     (0 \<le> max_depth cfg \<longrightarrow> (\<forall>e \<in> set (submitted s). snd e \<le> max_depth cfg))
   \<and> (\<forall>e \<in> set (submitted s). snd e \<le> max_depth cfg \<or> e = (normalize_target target, 0))
   \<and> (\<exists>new. scan_queue (process_done cfg lib i outcome s) = scan_queue s @ new
         \<and> (\<forall>e \<in> set new. snd e = snd (futures s ! i) + 1
                \<and> recursive cfg \<and> snd (futures s ! i) < max_depth cfg))"
proof -
  assume "reachable cfg lib visited target s"
  then have "state_ok cfg target s" by (rule reachable_state_ok)
  then have ok: "entry_ok cfg target e" if "e \<in> set (submitted s)" for e
    using that by (simp add: state_ok_def)
  have a: "snd e \<le> max_depth cfg" if "0 \<le> max_depth cfg" "e \<in> set (submitted s)" for e
    using ok[OF that(2)] that(1) by (auto simp: entry_ok_def)
  have b: "snd e \<le> max_depth cfg \<or> e = (normalize_target target, 0)"
    if "e \<in> set (submitted s)" for e
    using ok[OF that] by (cases e) (auto simp: entry_ok_def)
  from a b process_done_queue[of cfg lib i outcome s] show ?thesis by blast
qed

theorem depth_bound_witness:
  "reachable cfgC simple_urllib {} ''https://a/''
     (st [] [] [page ''https://a/'' 200 ''/sub'', page ''https://a/sub'' 200 ''/deep'']
        {''https://a/sub''} [(''https://a/'', 0), (''https://a/sub'', 1)])
   \<and> 0 \<le> max_depth cfgC
   \<and> snd (''https://a/'', 0 :: int) \<le> max_depth cfgC
   \<and> snd (''https://a/sub'', 1 :: int) \<le> max_depth cfgC"
proof -
  have m: "0 \<le> max_depth cfgC" by (simp add: cfgC_def default_config_def)
  from depth_bound[OF scenario_C_reachable, of 0 Raised] m
  have "\<forall>e \<in> set (submitted
     (st [] [] [page ''https://a/'' 200 ''/sub'', page ''https://a/sub'' 200 ''/deep'']
        {''https://a/sub''} [(''https://a/'', 0), (''https://a/sub'', 1)])). snd e \<le> max_depth cfgC"
    by (elim conjE impE)
  then have "snd (''https://a/'', 0 :: int) \<le> max_depth cfgC"
    and "snd (''https://a/sub'', 1 :: int) \<le> max_depth cfgC"
    by (simp_all add: st_def)
  with scenario_C_reachable m show ?thesis by (intro conjI)
qed


lemma extract_http:
  "extract_new_urls simple_urllib (page ''https://example.com/admin/'' 200 ''http://example.com/x'')
     = Some [''http://example.com/x'']"
  by (simp add: extract_new_urls_def findall_href_def page_def res_def match_href_def
      lower_def lower_char_def is_quote_def simple_urllib_def simple_urlparse_def Let_def
      eval_nat_numeral)

lemma http_link_collect:
  "process_done cfgR simple_urllib 0
     (Returned [page ''https://example.com/admin/'' 200 ''http://example.com/x''])
     (st [] [(''https://example.com'', 0)] [] {} [(''https://example.com'', 0)])
   = st [(''http://example.com/x'', 1)] []
       [page ''https://example.com/admin/'' 200 ''http://example.com/x'']
       {''http://example.com/x''} [(''https://example.com'', 0)]"
  by (simp add: process_done_def st_def cfgR_def default_config_def should_recurse_def
      extract_http page_status)

text \<open>
  C10, as stated, fails under recursion: only the target is normalised.  The scan of the
  target \<open>example.com\<close> returns a page of the site with a link written
  \<open>http://example.com/x\<close>; the link is on the same host, so it is queued as it is
  written and scanned at depth 1 with the scheme \<open>http\<close>.
\<close>

theorem http_link_counterexample:
  "reachable cfgR simple_urllib {} ''example.com''
     (st [] [(''http://example.com/x'', 1)]
        [page ''https://example.com/admin/'' 200 ''http://example.com/x'']
        {''http://example.com/x''} [(''https://example.com'', 0), (''http://example.com/x'', 1)])
   \<and> map fst (submitted
        (st [] [(''http://example.com/x'', 1)]
           [page ''https://example.com/admin/'' 200 ''http://example.com/x'']
           {''http://example.com/x''} [(''https://example.com'', 0), (''http://example.com/x'', 1)]))
       = [''https://example.com'', ''http://example.com/x'']"
proof -
  have t: "int (length ([] :: (string \<times> int) list)) < threads cfgR"
    by (simp add: cfgR_def default_config_def)
  have "init_state {} ''example.com'' = st [(''https://example.com'', 0)] [] [] {} []"
    by (simp add: init_state_def st_def normalize_target_def)
  with reachable_init[of cfgR simple_urllib "{}" "''example.com''"]
  have "reachable cfgR simple_urllib {} ''example.com''
          (st [(''https://example.com'', 0)] [] [] {} [])"
    by simp
  from reachable_submit[OF this t]
  have "reachable cfgR simple_urllib {} ''example.com''
          (st [] [(''https://example.com'', 0)] [] {} [(''https://example.com'', 0)])"
    by simp
  then have "reachable cfgR simple_urllib {} ''example.com''
          (st [(''http://example.com/x'', 1)] []
             [page ''https://example.com/admin/'' 200 ''http://example.com/x'']
             {''http://example.com/x''} [(''https://example.com'', 0)])"
    by (rule reachable_collect[where i = 0, OF _ _ http_link_collect]) (simp add: st_def)
  from reachable_submit[OF this t]
  have "reachable cfgR simple_urllib {} ''example.com''
          (st [] [(''http://example.com/x'', 1)]
             [page ''https://example.com/admin/'' 200 ''http://example.com/x'']
             {''http://example.com/x''} [(''https://example.com'', 0), (''http://example.com/x'', 1)])"
    by simp
  then show ?thesis by (simp add: st_def)
qed

lemma startswith_append: "startswith s p \<longleftrightarrow> (\<exists>x. s = p @ x)"
  by (induction s p rule: startswith.induct) auto

text \<open>
  C10 (amended): a target that starts with \<open>http://\<close> or \<open>https://\<close> is used
  unchanged, any other target gets \<open>https://\<close> in front; the queue is seeded with the
  normalised target at depth 0; and throughout the scan the first submitted url, and
  every url submitted at depth 0, is the normalised target.
\<close>

theorem target_normalised:
  "((\<exists>x. t = ''http://'' @ x) \<or> (\<exists>x. t = ''https://'' @ x) \<longrightarrow> normalize_target t = t)
   \<and> (\<not> ((\<exists>x. t = ''http://'' @ x) \<or> (\<exists>x. t = ''https://'' @ x))
        \<longrightarrow> normalize_target t = ''https://'' @ t)
   \<and> scan_queue (init_state visited t) = [(normalize_target t, 0)]
   \<and> (reachable cfg lib visited t s \<longrightarrow>
        (submitted s = [] \<or> hd (submitted s) = (normalize_target t, 0))
        \<and> (\<forall>e \<in> set (submitted s). snd e = 0 \<longrightarrow> fst e = normalize_target t))"
proof -
  have a: "(\<exists>x. t = ''http://'' @ x) \<or> (\<exists>x. t = ''https://'' @ x) \<Longrightarrow> normalize_target t = t"
    unfolding normalize_target_def startswith_append by simp
  have b: "\<not> ((\<exists>x. t = ''http://'' @ x) \<or> (\<exists>x. t = ''https://'' @ x))
        \<Longrightarrow> normalize_target t = ''https://'' @ t"
    unfolding normalize_target_def startswith_append by simp
  have c: "scan_queue (init_state visited t) = [(normalize_target t, 0)]"
    by (simp add: init_state_def)
  have d: "(submitted s = [] \<or> hd (submitted s) = (normalize_target t, 0))
        \<and> (\<forall>e \<in> set (submitted s). snd e = 0 \<longrightarrow> fst e = normalize_target t)"
    if "reachable cfg lib visited t s"
  proof -
    from that have ok: "state_ok cfg t s" by (rule reachable_state_ok)
    then have "submitted s = [] \<or> hd (submitted s) = (normalize_target t, 0)"
      by (cases "submitted s = []") (simp_all add: state_ok_def)
    moreover from ok have "\<forall>e \<in> set (submitted s). snd e = 0 \<longrightarrow> fst e = normalize_target t"
      by (simp add: state_ok_def entry_ok_def)
    ultimately show ?thesis by simp
  qed
  from a b c d show ?thesis by blast
qed

lemma normalize_example: "normalize_target ''example.com'' = ''https://example.com''"
  by (simp add: normalize_target_def)

theorem target_normalised_witness:
  "\<not> ((\<exists>x. ''example.com'' = ''http://'' @ x) \<or> (\<exists>x. ''example.com'' = ''https://'' @ x))
   \<and> normalize_target ''example.com'' = ''https://example.com''
   \<and> reachable default_config simple_urllib {} ''example.com''
       (st [] [(''https://example.com'', 0)] [] {} [(''https://example.com'', 0)])
   \<and> hd (submitted (st [] [(''https://example.com'', 0)] [] {} [(''https://example.com'', 0)]))
       = (normalize_target ''example.com'', 0)"
proof -
  have n: "\<not> ((\<exists>x. ''example.com'' = ''http://'' @ x) \<or> (\<exists>x. ''example.com'' = ''https://'' @ x))"
    by simp
  have t: "int (length ([] :: (string \<times> int) list)) < threads default_config"
    by (simp add: default_config_def)
  have "init_state {} ''example.com'' = st [(''https://example.com'', 0)] [] [] {} []"
    by (simp add: init_state_def st_def normalize_example)
  with reachable_init[of default_config simple_urllib "{}" "''example.com''"]
  have "reachable default_config simple_urllib {} ''example.com''
          (st [(''https://example.com'', 0)] [] [] {} [])"
    by simp
  from reachable_submit[OF this t]
  have r: "reachable default_config simple_urllib {} ''example.com''
          (st [] [(''https://example.com'', 0)] [] {} [(''https://example.com'', 0)])"
    by simp
  note inst = target_normalised[of "''example.com''" "{}" default_config simple_urllib
      "st [] [(''https://example.com'', 0)] [] {} [(''https://example.com'', 0)]"]
  from inst[THEN conjunct2, THEN conjunct1, THEN mp, OF n]
  have e: "normalize_target ''example.com'' = ''https://'' @ ''example.com''" .
  from inst[THEN conjunct2, THEN conjunct2, THEN conjunct2, THEN mp, OF r, THEN conjunct1]
  have "submitted (st [] [(''https://example.com'', 0)] [] {} [(''https://example.com'', 0)]) = []
      \<or> hd (submitted (st [] [(''https://example.com'', 0)] [] {} [(''https://example.com'', 0)]))
          = (normalize_target ''example.com'', 0)" .
  then have h: "hd (submitted (st [] [(''https://example.com'', 0)] [] {} [(''https://example.com'', 0)]))
          = (normalize_target ''example.com'', 0)"
    by (simp add: st_def)
  from e have e': "normalize_target ''example.com'' = ''https://example.com''" by simp
  from n e' r h show ?thesis by (intro conjI)
qed

text \<open>
  C8, as stated, fails: \<open>scan_targets\<close> on the empty list of targets returns the empty
  list of results; it raises nothing.
\<close>

theorem empty_targets_counterexample:
  "scan_targets default_config simple_urllib {} [] (Inr [], [], {})
   \<and> \<not> scan_targets default_config simple_urllib {} [] (Inl ''ConfigurationError'', [], {})"
  by (auto intro: scan_targets.no_target elim: scan_targets.cases)

text \<open>
  C8 (amended): on an empty list of targets \<open>scan_targets\<close> has exactly one outcome:
  it returns the empty list of results, submits no scan and leaves the visited set as
  it was.  \<open>Config.validate\<close> answers \<open>False\<close> exactly when the configuration has
  neither urls nor a url file; it raises nothing.
\<close>

theorem scan_targets_empty:
  "(scan_targets cfg lib visited [] out \<longleftrightarrow> out = (Inr [], [], visited))
   \<and> (fst (validate defaults cfg)
        \<longleftrightarrow> urls cfg \<noteq> [] \<or> (url_file cfg \<noteq> None \<and> url_file cfg \<noteq> Some []))"
  by (auto intro: scan_targets.no_target elim: scan_targets.cases simp: validate_def)

theorem scan_targets_empty_witness:
  "scan_targets cfgR simple_urllib {''seen''} [] (Inr [], [], {''seen''})
   \<and> \<not> fst (validate [] cfgR)"
  using scan_targets_empty[of cfgR simple_urllib "{''seen''}" "(Inr [], [], {''seen''})" "[]"]
  by (simp add: cfgR_def default_config_def)

section \<open>Requests, failures and the rate cap\<close>

subsection \<open>A failed request does not end the brute force scan\<close>

lemma brute_loop_all:
  "those (map (target_url lib base) ws) = Some ts \<Longrightarrow>
     brute_loop http lib uniform fadd cfg sess base ws k results tr
       = (Some (results @ List.map_filter (\<lambda>t. fst (make_request http cfg sess t)) ts),
          snd (brute_loop http lib uniform fadd cfg sess base ws k results tr))
     \<and> requests (snd (brute_loop http lib uniform fadd cfg sess base ws k results tr))
         = requests tr @ map (brute_request cfg sess) ts
     \<and> logged (snd (brute_loop http lib uniform fadd cfg sess base ws k results tr))
         = logged tr @ concat (map (\<lambda>t. snd (make_request http cfg sess t)) ts)"
proof (induction ws arbitrary: ts k results tr)
  case Nil
  then show ?case by (simp add: List.map_filter_simps)
next
  case (Cons w ws)
  from Cons.prems obtain t ts' where t: "target_url lib base w = Some t"
    and ts': "those (map (target_url lib base) ws) = Some ts'" and ts: "ts = t # ts'"
    by (auto split: option.splits)
  obtain r records where mr: "make_request http cfg sess t = (r, records)"
    by (cases "make_request http cfg sess t")
  let ?results' = "case r of None \<Rightarrow> results | Some x \<Rightarrow> results @ [x]"
  let ?tr' = "tr\<lparr>requests := requests tr @ [brute_request cfg sess t],
                   logged := logged tr @ records,
                   sleeps := sleeps tr @
                     (case apply_delay fadd cfg (uniform k (random_delay_min cfg) (random_delay_max cfg))
                      of None \<Rightarrow> [] | Some d \<Rightarrow> [d])\<rparr>"
  have e: "brute_loop http lib uniform fadd cfg sess base (w # ws) k results tr
      = brute_loop http lib uniform fadd cfg sess base ws (Suc k) ?results' ?tr'"
    by (simp add: t mr Let_def)
  have mf: "?results' @ List.map_filter (\<lambda>t. fst (make_request http cfg sess t)) ts'
      = results @ List.map_filter (\<lambda>t. fst (make_request http cfg sess t)) ts"
    by (cases r) (simp_all add: ts mr List.map_filter_simps)
  from Cons.IH[OF ts', of "Suc k" ?results' ?tr']
  show ?case unfolding e by (simp add: mf ts mr)
qed

text \<open>
  A request that raises is caught in \<open>_make_request\<close>: no result, one debug record.
  When every probe url can be built, the brute force scan requests all of them in order
  and returns the results of exactly the requests that were answered.
\<close>

lemma make_request_failure:
  "http sess (http_method cfg) u (timeout cfg) (follow_redirects cfg) = RequestException e \<Longrightarrow>
   make_request http cfg sess u = (None, [(''DEBUG'', ''Request failed for '' @ u @ '': '' @ e)])"
  by (simp add: make_request_def)

lemma brute_scan_all:
  assumes t: "those (map (target_url lib base) ws) = Some ts"
  shows "fst (brute_scan http lib uniform fadd cfg sess ws base)
          = Some (List.map_filter (\<lambda>t. fst (make_request http cfg sess t)) ts)"
    and "requests (snd (brute_scan http lib uniform fadd cfg sess ws base))
          = map (brute_request cfg sess) ts"
    and "concat (map (\<lambda>t. snd (make_request http cfg sess t)) ts)
            = tl (logged (snd (brute_scan http lib uniform fadd cfg sess ws base)))"
proof -
  let ?tr = "\<lparr>requests = [],
        logged = [(''INFO'', ''Starting brute force scan on '' @ base @ '' with ''
                     @ str_int (int (length ws)) @ '' words'')],
        sleeps = []\<rparr>"
  note l = brute_loop_all[OF t, of http uniform fadd cfg sess 0 "[]" ?tr]
  from l[THEN conjunct1]
  have "fst (brute_loop http lib uniform fadd cfg sess base ws 0 [] ?tr)
      = Some ([] @ List.map_filter (\<lambda>t. fst (make_request http cfg sess t)) ts)"
    by (metis fst_conv)
  then show "fst (brute_scan http lib uniform fadd cfg sess ws base)
          = Some (List.map_filter (\<lambda>t. fst (make_request http cfg sess t)) ts)"
    by (simp add: brute_scan_def)
  from l[THEN conjunct2, THEN conjunct1]
  show "requests (snd (brute_scan http lib uniform fadd cfg sess ws base))
          = map (brute_request cfg sess) ts"
    by (simp add: brute_scan_def)
  from l[THEN conjunct2, THEN conjunct2]
  show "concat (map (\<lambda>t. snd (make_request http cfg sess t)) ts)
            = tl (logged (snd (brute_scan http lib uniform fadd cfg sess ws base)))"
    by (simp add: brute_scan_def)
qed

subsection \<open>The scan of the example\<close>

lemma flaky_wordlist:
  "load_wordlist (env_read_lines flaky_env) (env_set_order flaky_env) cfg
     = ([''admin'', ''index.html''], [])"
  if "wordlists cfg = [''words.txt'']" and "extensions cfg = []"
  using that
  by (simp add: load_wordlist_def flaky_env_def strip_def is_space_def Let_def)

lemma flaky_brute:
  "brute_scan flaky_http simple_urllib (\<lambda>k lo hi. lo) (\<lambda>a b. a + b) cfg sess
     [''admin'', ''index.html''] ''https://a/''
   = (Some [res ''https://a/index.html'' 200 5 ''hello''],
      \<lparr>requests = [brute_request cfg sess ''https://a/admin/'',
                   brute_request cfg sess ''https://a/index.html''],
       logged = [(''INFO'', ''Starting brute force scan on https://a/ with 2 words''),
                 (''DEBUG'', ''Request failed for https://a/admin/: timed out''),
                 (''DEBUG'', ''Found: 200 - https://a/index.html'')],
       sleeps = []\<rparr>)"
  if "delay cfg = 0" and "random_delay_min cfg = 0"
  using that
  by (simp add: brute_scan_def target_url_def simple_urllib_def last_segment_def
      make_request_def flaky_http_def apply_delay_def res_def
      str_int_def str_nat.simps digit_char_def Let_def)

lemma flaky_filter:
  "filter_results (\<lambda>p s. False) (\<lambda>s. s) cfg Map.empty
     [analyze_result (res ''https://a/index.html'' 200 5 ''hello'')]
   = ([res ''https://a/index.html'' 200 5 ''hello''],
      [''hello'' \<mapsto> res ''https://a/index.html'' 200 5 ''hello''])"
  if "include_status_codes cfg = [200, 301, 302, 403]" and "exclude_status_codes cfg = [404, 429]"
    and "min_response_size cfg = 0" and "max_response_size cfg = 0"
    and "exclude_sizes cfg = []" and "exclude_text cfg = []" and "exclude_regex cfg = []"
  using that
  by (simp add: filter_results_def is_interesting_def is_false_positive_def
      false_positive_patterns_def remove_duplicates_def analyze_result_def
      remove_similar_responses_def calculate_content_hash_def res_def Let_def
      format_size_def lower_def lower_char_def is_space_def)

lemma flaky_scan_url:
  assumes "cfg = cfgB\<lparr>max_rate := m, timeout := tmo\<rparr>"
  shows "scan_url flaky_env cfg (init_shared cfg) ''https://a/'' 0
   = (Returned [res ''https://a/index.html'' 200 5 ''hello''],
      \<lparr>requests = [brute_request cfg (create_session cfg) ''https://a/admin/'',
                   brute_request cfg (create_session cfg) ''https://a/index.html''],
       logged = [(''INFO'', ''Real-time monitoring started''),
                 (''INFO'', ''Starting brute force scan on https://a/ with 2 words''),
                 (''DEBUG'', ''Request failed for https://a/admin/: timed out''),
                 (''DEBUG'', ''Found: 200 - https://a/index.html'')],
       sleeps = []\<rparr>,
      \<lparr>sh_session = create_session cfg,
       sh_cache = [''hello'' \<mapsto> res ''https://a/index.html'' 200 5 ''hello''],
       sh_monitoring = True,
       sh_stats = \<lparr>total_requests = 1, successful_requests = 0, failed_requests = 0,
                   found_paths = 1\<rparr>,
       sh_crawled = []\<rparr>)"
proof -
  have w: "load_wordlist (env_read_lines flaky_env) (env_set_order flaky_env) cfg
     = ([''admin'', ''index.html''], [])"
    by (rule flaky_wordlist) (simp_all add: assms cfgB_def default_config_def)
  have b: "brute_scan flaky_http simple_urllib (\<lambda>k lo hi. lo) (\<lambda>a b. a + b) cfg
      (create_session cfg) [''admin'', ''index.html''] ''https://a/''
   = (Some [res ''https://a/index.html'' 200 5 ''hello''],
      \<lparr>requests = [brute_request cfg (create_session cfg) ''https://a/admin/'',
                   brute_request cfg (create_session cfg) ''https://a/index.html''],
       logged = [(''INFO'', ''Starting brute force scan on https://a/ with 2 words''),
                 (''DEBUG'', ''Request failed for https://a/admin/: timed out''),
                 (''DEBUG'', ''Found: 200 - https://a/index.html'')],
       sleeps = []\<rparr>)"
    by (rule flaky_brute) (simp_all add: assms cfgB_def default_config_def)
  have f: "filter_results (\<lambda>p s. False) (\<lambda>s. s) cfg Map.empty
     [analyze_result (res ''https://a/index.html'' 200 5 ''hello'')]
   = ([res ''https://a/index.html'' 200 5 ''hello''],
      [''hello'' \<mapsto> res ''https://a/index.html'' 200 5 ''hello''])"
    by (rule flaky_filter) (simp_all add: assms cfgB_def default_config_def)
  have c: "brute_force cfg" "\<not> crawling cfg" "\<not> fuzz_patterns cfg" "\<not> anti_waf cfg"
    by (simp_all add: assms cfgB_def default_config_def)
  have e: "env_http flaky_env = flaky_http" "env_urllib flaky_env = simple_urllib"
    "env_uniform flaky_env = (\<lambda>k lo hi. lo)" "env_fadd flaky_env = (\<lambda>a b. a + b)"
    "env_re_search flaky_env = (\<lambda>p s. False)" "env_md5 flaky_env = (\<lambda>s. s)"
    by (simp_all add: flaky_env_def)
  show ?thesis
    unfolding scan_url_def
    by (simp add: c e w b f init_shared_def trace_append_def empty_trace_def
        update_total_requests_def update_found_paths_def prioritize_results_def Let_def)
qed

subsection \<open>Nothing counts a failed request\<close>

lemma scan_url_failed_unchanged:
  "failed_requests (sh_stats (snd (snd (scan_url env cfg shared u depth))))
     = failed_requests (sh_stats shared)"
  by (simp add: scan_url_def update_total_requests_def update_found_paths_def Let_def
      split: prod.splits option.splits)

lemma fuzz_loop_logged:
  "logged (snd (fuzz_loop http lib cfg base ps results tr)) = logged tr"
  by (induction ps arbitrary: results tr) (simp_all split: option.splits)

lemma fuzzer_scan_logged:
  "logged (snd (fuzzer_scan http lib cfg ps base))
     = [(''INFO'', ''Starting fuzzing scan on '' @ base @ '' with ''
                     @ str_int (int (length ps)) @ '' patterns'')]"
  by (simp add: fuzzer_scan_def fuzz_loop_logged)

lemma flaky_fuzz:
  "fuzzer_scan flaky_http simple_urllib cfg [''admin/''] ''https://a/''
     = (Some [],
        \<lparr>requests = [fuzz_request cfg ''https://a/admin/''],
         logged = [(''INFO'', ''Starting fuzzing scan on https://a/ with 1 patterns'')],
         sleeps = []\<rparr>)"
  by (simp add: fuzzer_scan_def simple_urllib_def fuzz_make_request_def flaky_http_def
      str_int_def str_nat.simps digit_char_def)

text \<open>
  C7: the request for \<open>https://a/admin/\<close> times out.  \<open>_make_request\<close> catches the
  exception and logs it, the scan goes on to \<open>https://a/index.html\<close>, and \<open>_scan_url\<close>
  returns the result of that request.  But the failure is counted nowhere: the monitor
  ends with \<open>failed_requests = 0\<close> (and \<open>total_requests = 1\<close>, the number of results),
  and no call of \<open>_scan_url\<close>, whatever it is given, changes \<open>failed_requests\<close>.  The
  fuzzer, for its part, does not log the failure either: its scan logs one record, the
  announcement of the scan, whatever the network answers.
\<close>

theorem failed_request_not_counted:
  "failed_requests (sh_stats (snd (snd (scan_url env cfg shared u depth))))
     = failed_requests (sh_stats shared)
   \<and> logged (snd (fuzzer_scan http lib cfg ps base))
       = [(''INFO'', ''Starting fuzzing scan on '' @ base @ '' with ''
                       @ str_int (int (length ps)) @ '' patterns'')]
   \<and> flaky_http (create_session cfgB) (http_method cfgB) ''https://a/admin/'' (timeout cfgB)
         (follow_redirects cfgB)
       = RequestException ''timed out''
   \<and> scan_url flaky_env cfgB (init_shared cfgB) ''https://a/'' 0
       = (Returned [res ''https://a/index.html'' 200 5 ''hello''],
          \<lparr>requests = [brute_request cfgB (create_session cfgB) ''https://a/admin/'',
                       brute_request cfgB (create_session cfgB) ''https://a/index.html''],
           logged = [(''INFO'', ''Real-time monitoring started''),
                     (''INFO'', ''Starting brute force scan on https://a/ with 2 words''),
                     (''DEBUG'', ''Request failed for https://a/admin/: timed out''),
                     (''DEBUG'', ''Found: 200 - https://a/index.html'')],
           sleeps = []\<rparr>,
          \<lparr>sh_session = create_session cfgB,
           sh_cache = [''hello'' \<mapsto> res ''https://a/index.html'' 200 5 ''hello''],
           sh_monitoring = True,
           sh_stats = \<lparr>total_requests = 1, successful_requests = 0, failed_requests = 0,
                       found_paths = 1\<rparr>,
           sh_crawled = []\<rparr>)
   \<and> fuzzer_scan flaky_http simple_urllib cfgB [''admin/''] ''https://a/''
       = (Some [],
          \<lparr>requests = [fuzz_request cfgB ''https://a/admin/''],
           logged = [(''INFO'', ''Starting fuzzing scan on https://a/ with 1 patterns'')],
           sleeps = []\<rparr>)"
proof -
  have "cfgB = cfgB\<lparr>max_rate := 0, timeout := 10\<rparr>"
    by (simp add: cfgB_def default_config_def)
  from flaky_scan_url[OF this]
  have s: "scan_url flaky_env cfgB (init_shared cfgB) ''https://a/'' 0
       = (Returned [res ''https://a/index.html'' 200 5 ''hello''],
          \<lparr>requests = [brute_request cfgB (create_session cfgB) ''https://a/admin/'',
                       brute_request cfgB (create_session cfgB) ''https://a/index.html''],
           logged = [(''INFO'', ''Real-time monitoring started''),
                     (''INFO'', ''Starting brute force scan on https://a/ with 2 words''),
                     (''DEBUG'', ''Request failed for https://a/admin/: timed out''),
                     (''DEBUG'', ''Found: 200 - https://a/index.html'')],
           sleeps = []\<rparr>,
          \<lparr>sh_session = create_session cfgB,
           sh_cache = [''hello'' \<mapsto> res ''https://a/index.html'' 200 5 ''hello''],
           sh_monitoring = True,
           sh_stats = \<lparr>total_requests = 1, successful_requests = 0, failed_requests = 0,
                       found_paths = 1\<rparr>,
           sh_crawled = []\<rparr>)" .
  have h: "flaky_http (create_session cfgB) (http_method cfgB) ''https://a/admin/'' (timeout cfgB)
         (follow_redirects cfgB)
       = RequestException ''timed out''"
    by (simp add: flaky_http_def)
  from scan_url_failed_unchanged fuzzer_scan_logged h s flaky_fuzz show ?thesis
    by (intro conjI)
qed

text \<open>
  With crawling on, as it is by default, a crawl request that is answered makes
  \<open>_scan_url\<close> raise: the crawler reads a configuration field that does not exist.
\<close>

lemma crawler_answered_raises:
  "fst (scan_url flaky_env (cfgB\<lparr>crawling := True\<rparr>) (init_shared (cfgB\<lparr>crawling := True\<rparr>))
          ''https://a/'' 0) = Raised"
proof -
  let ?cfg = "cfgB\<lparr>crawling := True\<rparr>"
  have w: "load_wordlist (env_read_lines flaky_env) (env_set_order flaky_env) ?cfg
     = ([''admin'', ''index.html''], [])"
    by (rule flaky_wordlist) (simp_all add: cfgB_def default_config_def)
  have b: "brute_scan flaky_http simple_urllib (\<lambda>k lo hi. lo) (\<lambda>a b. a + b) ?cfg
      (create_session ?cfg) [''admin'', ''index.html''] ''https://a/''
   = (Some [res ''https://a/index.html'' 200 5 ''hello''],
      \<lparr>requests = [brute_request ?cfg (create_session ?cfg) ''https://a/admin/'',
                   brute_request ?cfg (create_session ?cfg) ''https://a/index.html''],
       logged = [(''INFO'', ''Starting brute force scan on https://a/ with 2 words''),
                 (''DEBUG'', ''Request failed for https://a/admin/: timed out''),
                 (''DEBUG'', ''Found: 200 - https://a/index.html'')],
       sleeps = []\<rparr>)"
    by (rule flaky_brute) (simp_all add: cfgB_def default_config_def)
  have c: "brute_force ?cfg" "crawling ?cfg" "\<not> anti_waf ?cfg"
    by (simp_all add: cfgB_def default_config_def)
  have e: "env_http flaky_env = flaky_http" "env_urllib flaky_env = simple_urllib"
    "env_uniform flaky_env = (\<lambda>k lo hi. lo)" "env_fadd flaky_env = (\<lambda>a b. a + b)"
    by (simp_all add: flaky_env_def)
  have cr: "crawler_scan flaky_http (env_html_error flaky_env) ?cfg s [] ''https://a/''
      = (None,
         \<lparr>requests = [crawl_request ?cfg s ''https://a/''],
          logged = [(''INFO'', ''Starting crawl from https://a/'')], sleeps = []\<rparr>,
         [''https://a/''])" for s
    by (simp add: crawler_scan_def crawl_url_def flaky_http_def flaky_env_def
        extract_urls_raises_def Let_def)
  show ?thesis
    unfolding scan_url_def
    by (simp add: c e w b cr init_shared_def Let_def)
qed

subsection \<open>The rate cap\<close>

lemma create_session_max_rate: "create_session (cfg\<lparr>max_rate := m\<rparr>) = create_session cfg"
  by (simp add: create_session_def)

lemma init_shared_max_rate: "init_shared (cfg\<lparr>max_rate := m\<rparr>) = init_shared cfg"
  by (simp add: init_shared_def create_session_max_rate)

lemma extend_word_max_rate: "extend_word (cfg\<lparr>max_rate := m\<rparr>) = extend_word cfg"
  by (rule ext) (simp add: extend_word_def)

lemma load_wordlist_max_rate:
  "load_wordlist read_lines set_order (cfg\<lparr>max_rate := m\<rparr>) = load_wordlist read_lines set_order cfg"
  unfolding load_wordlist_def extend_word_max_rate by simp

lemma generate_patterns_max_rate:
  "generate_patterns ws (cfg\<lparr>max_rate := m\<rparr>) = generate_patterns ws cfg"
  by (simp add: generate_patterns_def)

lemma make_request_max_rate:
  "make_request http (cfg\<lparr>max_rate := m\<rparr>) sess u = make_request http cfg sess u"
  by (simp add: make_request_def)

lemma brute_request_max_rate:
  "brute_request (cfg\<lparr>max_rate := m\<rparr>) sess u = brute_request cfg sess u"
  by (simp add: brute_request_def)

lemma apply_delay_max_rate: "apply_delay fadd (cfg\<lparr>max_rate := m\<rparr>) rnd = apply_delay fadd cfg rnd"
  by (simp add: apply_delay_def)

lemma brute_loop_max_rate:
  "brute_loop http lib uniform fadd (cfg\<lparr>max_rate := m\<rparr>) sess base ws k results tr
     = brute_loop http lib uniform fadd cfg sess base ws k results tr"
  by (induction ws arbitrary: k results tr)
     (simp_all add: make_request_max_rate apply_delay_max_rate brute_request_max_rate
        split: option.splits)

lemma brute_scan_max_rate:
  "brute_scan http lib uniform fadd (cfg\<lparr>max_rate := m\<rparr>) sess ws base
     = brute_scan http lib uniform fadd cfg sess ws base"
  by (simp add: brute_scan_def brute_loop_max_rate)

lemma crawler_scan_max_rate:
  "crawler_scan http html_error (cfg\<lparr>max_rate := m\<rparr>) sess visited base
     = crawler_scan http html_error cfg sess visited base"
  by (simp add: crawler_scan_def crawl_url_def crawl_request_def Let_def)

lemma fuzz_make_request_max_rate:
  "fuzz_make_request http (cfg\<lparr>max_rate := m\<rparr>) u = fuzz_make_request http cfg u"
  by (simp add: fuzz_make_request_def fuzzer_session_def)

lemma fuzz_request_max_rate: "fuzz_request (cfg\<lparr>max_rate := m\<rparr>) u = fuzz_request cfg u"
  by (simp add: fuzz_request_def fuzzer_session_def)

lemma fuzz_loop_max_rate:
  "fuzz_loop http lib (cfg\<lparr>max_rate := m\<rparr>) base ps results tr
     = fuzz_loop http lib cfg base ps results tr"
  by (induction ps arbitrary: results tr)
     (simp_all add: fuzz_make_request_max_rate fuzz_request_max_rate split: option.splits)

lemma fuzzer_scan_max_rate:
  "fuzzer_scan http lib (cfg\<lparr>max_rate := m\<rparr>) ps base = fuzzer_scan http lib cfg ps base"
  by (simp add: fuzzer_scan_def fuzz_loop_max_rate)

lemma is_interesting_max_rate:
  "is_interesting re (cfg\<lparr>max_rate := m\<rparr>) r = is_interesting re cfg r"
  by (simp add: is_interesting_def)

lemma filter_results_max_rate:
  "filter_results re md5 (cfg\<lparr>max_rate := m\<rparr>) cache rs = filter_results re md5 cfg cache rs"
proof -
  have "is_interesting re (cfg\<lparr>max_rate := m\<rparr>) = is_interesting re cfg"
    by (rule ext) (rule is_interesting_max_rate)
  then show ?thesis by (simp add: filter_results_def)
qed

lemma scan_url_max_rate:
  "scan_url env (cfg\<lparr>max_rate := m\<rparr>) shared u depth = scan_url env cfg shared u depth"
proof -
  have sel: "anti_waf (cfg\<lparr>max_rate := m\<rparr>) = anti_waf cfg"
    "brute_force (cfg\<lparr>max_rate := m\<rparr>) = brute_force cfg"
    "crawling (cfg\<lparr>max_rate := m\<rparr>) = crawling cfg"
    "fuzz_patterns (cfg\<lparr>max_rate := m\<rparr>) = fuzz_patterns cfg"
    by simp_all
  show ?thesis
    unfolding scan_url_def sel
      brute_scan_max_rate crawler_scan_max_rate fuzzer_scan_max_rate
      filter_results_max_rate load_wordlist_max_rate generate_patterns_max_rate
    by (rule refl)
qed

lemma recurse_results_max_rate:
  "recurse_results (cfg\<lparr>max_rate := m\<rparr>) lib u d rs s = recurse_results cfg lib u d rs s"
  by (induction rs arbitrary: s) (simp_all add: should_recurse_def split: option.splits)

lemma process_done_max_rate:
  "process_done (cfg\<lparr>max_rate := m\<rparr>) lib i out s = process_done cfg lib i out s"
  by (simp add: process_done_def recurse_results_max_rate Let_def
      split: prod.splits scan_outcome.splits)

lemma scan_step_max_rate:
  "scan_step (cfg\<lparr>max_rate := m\<rparr>) lib s s' = scan_step cfg lib s s'"
  by (simp add: scan_step.simps process_done_max_rate)

lemma reachable_max_rate:
  "reachable (cfg\<lparr>max_rate := m\<rparr>) lib visited target s = reachable cfg lib visited target s"
proof -
  have "scan_step (cfg\<lparr>max_rate := m\<rparr>) lib = scan_step cfg lib"
    by (intro ext) (rule scan_step_max_rate)
  then show ?thesis by (simp add: reachable_def)
qed

lemma scan_target_max_rate:
  "scan_target (cfg\<lparr>max_rate := m\<rparr>) lib visited target out = scan_target cfg lib visited target out"
  by (simp add: scan_target.simps reachable_max_rate)

lemma scan_targets_max_rate_imp:
  "scan_targets cfg lib visited ts out \<Longrightarrow> scan_targets (cfg\<lparr>max_rate := m\<rparr>) lib visited ts out"
proof (induction rule: scan_targets.induct)
  case (no_target visited)
  show ?case by (rule scan_targets.no_target)
next
  case (target_raises visited t e tr visited' ts)
  then show ?case
    by (intro scan_targets.target_raises) (simp add: scan_target_max_rate)
next
  case (target_returns visited t rs tr visited' ts out tr' visited'')
  then show ?case
    by (intro scan_targets.target_returns) (simp_all add: scan_target_max_rate)
qed

lemma scan_targets_max_rate:
  "scan_targets (cfg\<lparr>max_rate := m\<rparr>) lib visited ts out = scan_targets cfg lib visited ts out"
proof
  assume "scan_targets (cfg\<lparr>max_rate := m\<rparr>) lib visited ts out"
  from scan_targets_max_rate_imp[OF this, of "max_rate cfg"]
  show "scan_targets cfg lib visited ts out" by simp
next
  assume "scan_targets cfg lib visited ts out"
  then show "scan_targets (cfg\<lparr>max_rate := m\<rparr>) lib visited ts out"
    by (rule scan_targets_max_rate_imp)
qed

text \<open>
  The model is not blind to the configuration: the timeout, which the code passes to
  every request, shows in the requests of the same scan.
\<close>

lemma timeout_reaches_requests:
  "map req_timeout (requests (fst (snd (scan_url flaky_env (cfgB\<lparr>timeout := 3\<rparr>)
                                          (init_shared (cfgB\<lparr>timeout := 3\<rparr>)) ''https://a/'' 0))))
     = [3, 3]
   \<and> map req_timeout (requests (fst (snd (scan_url flaky_env cfgB (init_shared cfgB)
                                            ''https://a/'' 0))))
     = [10, 10]"
proof -
  have 1: "cfgB\<lparr>timeout := 3\<rparr> = cfgB\<lparr>max_rate := 0, timeout := 3\<rparr>"
    by (simp add: cfgB_def default_config_def)
  have 2: "cfgB = cfgB\<lparr>max_rate := 0, timeout := 10\<rparr>"
    by (simp add: cfgB_def default_config_def)
  show ?thesis
    unfolding flaky_scan_url[OF 1] flaky_scan_url[OF 2]
    by (simp add: brute_request_def cfgB_def default_config_def)
qed

text \<open>
  C9: the field \<open>max_rate\<close> is read nowhere.  Two configurations that differ only in
  its value give the same scanner (session, wordlist and log of its loading, fuzzing
  patterns), the same brute force scan, crawl and fuzzing scan (results, requests in
  order with all that is passed to the network, log and sleeps), the same acceptance
  filter and result pipeline, the same \<open>_scan_url\<close> (outcome, trace and shared state),
  the same steps of the scheduling loop and the same outcomes of \<open>scan_target\<close> and
  \<open>scan_targets\<close>.  (The anti-WAF step, the content analysis and the prioritization
  are not given the configuration at all.)
\<close>

theorem max_rate_not_enforced:
  "init_shared (cfg\<lparr>max_rate := m\<rparr>) = init_shared cfg
   \<and> load_wordlist read_lines set_order (cfg\<lparr>max_rate := m\<rparr>)
       = load_wordlist read_lines set_order cfg
   \<and> generate_patterns ws (cfg\<lparr>max_rate := m\<rparr>) = generate_patterns ws cfg
   \<and> brute_scan http lib uniform fadd (cfg\<lparr>max_rate := m\<rparr>) sess ws base
       = brute_scan http lib uniform fadd cfg sess ws base
   \<and> crawler_scan http html_error (cfg\<lparr>max_rate := m\<rparr>) sess crawled base
       = crawler_scan http html_error cfg sess crawled base
   \<and> fuzzer_scan http lib (cfg\<lparr>max_rate := m\<rparr>) ws base = fuzzer_scan http lib cfg ws base
   \<and> filter_results re md5 (cfg\<lparr>max_rate := m\<rparr>) cache rs = filter_results re md5 cfg cache rs
   \<and> scan_url env (cfg\<lparr>max_rate := m\<rparr>) shared u depth = scan_url env cfg shared u depth
   \<and> scan_step (cfg\<lparr>max_rate := m\<rparr>) lib s s' = scan_step cfg lib s s'
   \<and> scan_target (cfg\<lparr>max_rate := m\<rparr>) lib visited t out = scan_target cfg lib visited t out
   \<and> scan_targets (cfg\<lparr>max_rate := m\<rparr>) lib visited ts out
       = scan_targets cfg lib visited ts out"
  by (intro conjI init_shared_max_rate load_wordlist_max_rate generate_patterns_max_rate
      brute_scan_max_rate crawler_scan_max_rate fuzzer_scan_max_rate filter_results_max_rate
      scan_url_max_rate scan_step_max_rate scan_target_max_rate scan_targets_max_rate)

theorem max_rate_not_enforced_witness:
  "max_rate (cfgB\<lparr>max_rate := 5\<rparr>) \<noteq> max_rate cfgB
   \<and> scan_url flaky_env (cfgB\<lparr>max_rate := 5\<rparr>) (init_shared (cfgB\<lparr>max_rate := 5\<rparr>)) ''https://a/'' 0
       = scan_url flaky_env cfgB (init_shared cfgB) ''https://a/'' 0
   \<and> fst (scan_url flaky_env (cfgB\<lparr>max_rate := 5\<rparr>) (init_shared (cfgB\<lparr>max_rate := 5\<rparr>))
              ''https://a/'' 0)
       = Returned [res ''https://a/index.html'' 200 5 ''hello'']
   \<and> map req_url (requests (fst (snd (scan_url flaky_env (cfgB\<lparr>max_rate := 5\<rparr>)
                                        (init_shared (cfgB\<lparr>max_rate := 5\<rparr>)) ''https://a/'' 0))))
       = [''https://a/admin/'', ''https://a/index.html'']"
proof -
  have n: "max_rate (cfgB\<lparr>max_rate := 5\<rparr>) \<noteq> max_rate cfgB"
    by (simp add: cfgB_def default_config_def)
  note t = max_rate_not_enforced[where cfg = cfgB and m = 5 and env = flaky_env
      and shared = "init_shared cfgB" and u = "''https://a/''" and depth = 0]
  from t[THEN conjunct1]
  have i: "init_shared (cfgB\<lparr>max_rate := 5\<rparr>) = init_shared cfgB" .
  from t[THEN conjunct2, THEN conjunct2, THEN conjunct2, THEN conjunct2, THEN conjunct2,
         THEN conjunct2, THEN conjunct2, THEN conjunct1]
  have e: "scan_url flaky_env (cfgB\<lparr>max_rate := 5\<rparr>) (init_shared (cfgB\<lparr>max_rate := 5\<rparr>))
             ''https://a/'' 0
       = scan_url flaky_env cfgB (init_shared cfgB) ''https://a/'' 0"
    unfolding i .
  have "cfgB\<lparr>max_rate := 5\<rparr> = cfgB\<lparr>max_rate := 5, timeout := 10\<rparr>"
    by (simp add: cfgB_def default_config_def)
  note v = flaky_scan_url[OF this]
  have r: "fst (scan_url flaky_env (cfgB\<lparr>max_rate := 5\<rparr>) (init_shared (cfgB\<lparr>max_rate := 5\<rparr>))
              ''https://a/'' 0)
       = Returned [res ''https://a/index.html'' 200 5 ''hello'']"
    unfolding v by simp
  have q: "map req_url (requests (fst (snd (scan_url flaky_env (cfgB\<lparr>max_rate := 5\<rparr>)
                                        (init_shared (cfgB\<lparr>max_rate := 5\<rparr>)) ''https://a/'' 0))))
       = [''https://a/admin/'', ''https://a/index.html'']"
    unfolding v by (simp add: brute_request_def)
  from n e r q show ?thesis by (intro conjI)
qed

end
